theory Spec2Isabelle
  imports Main "HOL-Library.AList"
begin

section \<open>The tsserver protocol engine of \<open>server.ts\<close>\<close>

text \<open>
  The theory embeds the classes \<open>CallbackMap\<close>, \<open>RequestQueue\<close> and \<open>TypeScriptServer\<close> of
  \<open>extensions/typescript-language-features/src/server.ts\<close>. Every method is a function
  that takes the server state and returns the new one. What the methods do to the world
  outside the three classes is kept in the state as logs: the requests written to the
  worker's standard input, the continuations invoked, the notifications fired, the files
  written to the cancellation pipe and the telemetry records.

  Sequence numbers are JavaScript numbers counted up from \<open>0\<close> by \<open>sequenceNumber++\<close>; they
  are natural numbers here (the counter would have to pass \<open>2 ^ 53\<close> to lose precision).
  Strings are lists of characters. The opaque payloads (\<open>arguments\<close>, \<open>body\<close>, the exit
  code) are strings. The logger and the tracer only observe and are left out.
\<close>

subsection \<open>Protocol messages\<close>

record Request =
  seq :: nat
  command :: string
  arguments :: string

record Response =
  request_seq :: nat
  success :: bool
  message :: "string option"
  body :: string

text \<open>An event carries its name; \<open>body_request_seq\<close> is \<open>body.request_seq\<close>, which the
  engine reads for the event \<open>requestCompleted\<close> only.\<close>

record Event =
  event :: string
  body_request_seq :: nat

datatype Message = ResponseMsg Response | EventMsg Event | UnknownMsg string

text \<open>The values handed to \<open>onError\<close>: an \<open>Error\<close> object the engine creates, the response
  that reported a failure, or whatever \<open>write\<close> threw (with its message).\<close>

datatype err = Error string | ErrorResponse Response | Thrown string

fun err_message :: "err \<Rightarrow> string option" where
  "err_message (Error m) = Some m"
| "err_message (ErrorResponse r) = message r"
| "err_message (Thrown m) = Some m"

subsection \<open>Decimal rendering of a sequence number\<close>

definition digit_char :: "nat \<Rightarrow> char" where
  "digit_char d = char_of (48 + d)"

fun string_of_nat :: "nat \<Rightarrow> string" where
  "string_of_nat n =
     (if n < 10 then [digit_char n] else string_of_nat (n div 10) @ [digit_char (n mod 10)])"

subsection \<open>\<open>CallbackItem\<close> and \<open>CallbackMap\<close>\<close>

text \<open>\<open>onSuccess\<close> and \<open>onError\<close> of a \<open>CallbackItem\<close> are the \<open>resolve\<close> and \<open>reject\<close>
  functions of one promise; \<open>promise\<close> names that promise.\<close>

record CallbackItem =
  promise :: nat
  startTime :: nat
  cb_isAsync :: bool

text \<open>A JavaScript \<open>Map\<close> keeps its entries in insertion order: an association list with
  distinct keys. \<open>set\<close> is \<open>AList.update\<close>, \<open>delete\<close> is \<open>AList.delete\<close>, \<open>get\<close> is
  \<open>map_of\<close>.\<close>

record CallbackMap =
  m_callbacks :: "(nat \<times> CallbackItem) list"
  m_asyncCallbacks :: "(nat \<times> CallbackItem) list"

definition add :: "nat \<Rightarrow> CallbackItem \<Rightarrow> bool \<Rightarrow> CallbackMap \<Rightarrow> CallbackMap" where
  "add sq callback isAsync m =
     (if isAsync then m\<lparr>m_asyncCallbacks := AList.update sq callback (m_asyncCallbacks m)\<rparr>
      else m\<lparr>m_callbacks := AList.update sq callback (m_callbacks m)\<rparr>)"

definition delete :: "nat \<Rightarrow> CallbackMap \<Rightarrow> CallbackMap" where
  "delete sq m =
     (if map_of (m_callbacks m) sq \<noteq> None
      then m\<lparr>m_callbacks := AList.delete sq (m_callbacks m)\<rparr>
      else m\<lparr>m_asyncCallbacks := AList.delete sq (m_asyncCallbacks m)\<rparr>)"

definition fetch :: "nat \<Rightarrow> CallbackMap \<Rightarrow> CallbackItem option \<times> CallbackMap" where
  "fetch sq m =
     (let callback = (case map_of (m_callbacks m) sq of
                        Some c \<Rightarrow> Some c
                      | None \<Rightarrow> map_of (m_asyncCallbacks m) sq)
      in (callback, delete sq m))"

subsection \<open>\<open>RequestItem\<close> and \<open>RequestQueue\<close>\<close>

record RequestItem =
  request :: Request
  expectsResponse :: bool
  isAsync :: bool

record RequestQueue =
  queue :: "RequestItem list"
  sequenceNumber :: nat

definition push :: "RequestItem \<Rightarrow> RequestQueue \<Rightarrow> RequestQueue" where
  "push item q = q\<lparr>queue := queue q @ [item]\<rparr>"

definition shift :: "RequestQueue \<Rightarrow> RequestItem option \<times> RequestQueue" where
  "shift q = (case queue q of [] \<Rightarrow> (None, q) | item # rest \<Rightarrow> (Some item, q\<lparr>queue := rest\<rparr>))"

text \<open>The scan of \<open>tryCancelPendingRequest\<close>: the first item with the sequence number is
  spliced out.\<close>

fun splice_first :: "nat \<Rightarrow> RequestItem list \<Rightarrow> bool \<times> RequestItem list" where
  "splice_first sq [] = (False, [])"
| "splice_first sq (item # rest) =
     (if seq (request item) = sq then (True, rest)
      else (let (found, rest') = splice_first sq rest in (found, item # rest')))"

definition tryCancelPendingRequest :: "nat \<Rightarrow> RequestQueue \<Rightarrow> bool \<times> RequestQueue" where
  "tryCancelPendingRequest sq q =
     (let (found, items) = splice_first sq (queue q) in (found, q\<lparr>queue := items\<rparr>))"

definition createRequest :: "string \<Rightarrow> string \<Rightarrow> RequestQueue \<Rightarrow> Request \<times> RequestQueue" where
  "createRequest cmd args q =
     (\<lparr>seq = sequenceNumber q, command = cmd, arguments = args\<rparr>,
      q\<lparr>sequenceNumber := sequenceNumber q + 1\<rparr>)"

subsection \<open>The JavaScript string functions of \<open>parseErrorText\<close>\<close>

definition startsWith :: "string \<Rightarrow> string \<Rightarrow> bool" where
  "startsWith t p = (take (length p) t = p)"

definition substr :: "string \<Rightarrow> nat \<Rightarrow> string" where
  "substr t start = drop start t"

text \<open>\<open>indexOf\<close> of a one-character string: the first position, \<open>-1\<close> when there is none.\<close>

fun indexOf :: "string \<Rightarrow> char \<Rightarrow> int" where
  "indexOf [] c = - 1"
| "indexOf (x # xs) c =
     (if x = c then 0 else (let i = indexOf xs c in if i < 0 then - 1 else i + 1))"

text \<open>\<open>substring\<close> clamps both indices to the string and swaps them when they are out of
  order; \<open>substring_from\<close> is the call with one argument.\<close>

definition substring :: "string \<Rightarrow> int \<Rightarrow> int \<Rightarrow> string" where
  "substring t a b =
     (let n = int (length t);
          a' = max 0 (min a n);
          b' = max 0 (min b n);
          lo = min a' b';
          hi = max a' b'
      in take (nat (hi - lo)) (drop (nat lo) t))"

definition substring_from :: "string \<Rightarrow> int \<Rightarrow> string" where
  "substring_from t a = substring t a (int (length t))"

definition newline :: char where
  "newline = CHR 0x0A"

definition parseErrorText :: "string option \<Rightarrow> string \<Rightarrow> (string \<rightharpoonup> string)" where
  "parseErrorText errorText cmd =
     (let properties = [''command'' \<mapsto> cmd] in
      case errorText of
        None \<Rightarrow> properties
      | Some t \<Rightarrow>
          if t = [] then properties
          else
            (let properties = properties(''errorText'' \<mapsto> t);
                 errorPrefix = ''Error processing request. ''
             in if startsWith t errorPrefix
                then (let prefixFreeErrorText = substr t (length errorPrefix);
                          newlineIndex = indexOf prefixFreeErrorText newline
                      in if newlineIndex \<ge> 0
                         then properties
                                (''message'' \<mapsto> substring prefixFreeErrorText 0 newlineIndex,
                                 ''stack'' \<mapsto> substring_from prefixFreeErrorText (newlineIndex + 1))
                         else properties)
                else properties))"

subsection \<open>The server and the world around it\<close>

record ExecuteInfo =
  info_isAsync :: bool
  token :: bool
  expectsResult :: bool

text \<open>What the promise built by \<open>executeImpl\<close> closes over: the command, the
  \<open>executeInfo\<close> and the variable \<open>wasCancelled\<close>.\<close>

record Closure =
  cl_command :: string
  cl_info :: ExecuteInfo
  wasCancelled :: bool

datatype invocation = OnSuccess nat "Response option" | OnError nat err

datatype notification = OnEventFired Event | OnExitFired string | OnErrorFired string

text \<open>
  The fields of \<open>TypeScriptServer\<close> come first. Then the world: \<open>stdin\<close> holds the
  requests written to the worker, \<open>invocations\<close> every call of a continuation,
  \<open>fired\<close> the calls of the three emitters, \<open>pipeFiles\<close> the names of the files written
  for a cancellation. \<open>closures\<close> maps a promise (named by the sequence number of its
  request) to what it closes over, \<open>settled\<close> holds the promises already resolved or
  rejected, \<open>microtasks\<close> the rejection handlers (the \<open>catch\<close> of \<open>executeImpl\<close>) that are
  scheduled and have not run yet, and \<open>telemetry\<close> the records given to \<open>logTelemetry\<close>.
\<close>

record TypeScriptServer =
  requestQueue :: RequestQueue
  callbacks :: CallbackMap
  pendingResponses :: "nat set"
  cancellationPipeName :: "string option"
  stdin :: "Request list"
  invocations :: "invocation list"
  fired :: "notification list"
  pipeFiles :: "string list"
  closures :: "nat \<rightharpoonup> Closure"
  settled :: "nat set"
  microtasks :: "(nat \<times> err) list"
  telemetry :: "(string \<times> (string \<rightharpoonup> string)) list"

definition new_server :: "string option \<Rightarrow> TypeScriptServer" where
  "new_server pipeName =
     \<lparr>requestQueue = \<lparr>queue = [], sequenceNumber = 0\<rparr>,
      callbacks = \<lparr>m_callbacks = [], m_asyncCallbacks = []\<rparr>,
      pendingResponses = {},
      cancellationPipeName = pipeName,
      stdin = [], invocations = [], fired = [], pipeFiles = [],
      closures = Map.empty, settled = {}, microtasks = [], telemetry = []\<rparr>"

text \<open>A promise settles once: \<open>resolve\<close> and \<open>reject\<close> of a settled promise do nothing. A
  rejection schedules the \<open>catch\<close> handler, which runs later, as a microtask.\<close>

definition resolve :: "nat \<Rightarrow> TypeScriptServer \<Rightarrow> TypeScriptServer" where
  "resolve p s = (if p \<in> settled s then s else s\<lparr>settled := insert p (settled s)\<rparr>)"

definition reject :: "nat \<Rightarrow> err \<Rightarrow> TypeScriptServer \<Rightarrow> TypeScriptServer" where
  "reject p e s =
     (if p \<in> settled s then s
      else s\<lparr>settled := insert p (settled s), microtasks := microtasks s @ [(p, e)]\<rparr>)"

definition onSuccess :: "CallbackItem \<Rightarrow> Response option \<Rightarrow> TypeScriptServer \<Rightarrow> TypeScriptServer" where
  "onSuccess cb v s =
     resolve (promise cb) (s\<lparr>invocations := invocations s @ [OnSuccess (promise cb) v]\<rparr>)"

definition onError :: "CallbackItem \<Rightarrow> err \<Rightarrow> TypeScriptServer \<Rightarrow> TypeScriptServer" where
  "onError cb e s =
     reject (promise cb) e (s\<lparr>invocations := invocations s @ [OnError (promise cb) e]\<rparr>)"

text \<open>The \<open>catch\<close> handler of \<open>executeImpl\<close>, run for promise \<open>p\<close> rejected with \<open>e\<close>.\<close>

definition catchHandler :: "nat \<times> err \<Rightarrow> TypeScriptServer \<Rightarrow> TypeScriptServer" where
  "catchHandler job s =
     (case closures s (fst job) of
        None \<Rightarrow> s
      | Some c \<Rightarrow>
          if \<not> wasCancelled c
          then s\<lparr>telemetry := telemetry s @
                  [(''languageServiceErrorResponse'',
                    parseErrorText (err_message (snd job)) (cl_command c))]\<rparr>
          else s)"

definition runMicrotasks :: "TypeScriptServer \<Rightarrow> TypeScriptServer" where
  "runMicrotasks s = fold catchHandler (microtasks s) (s\<lparr>microtasks := []\<rparr>)"

subsection \<open>\<open>CallbackMap.destroy\<close>\<close>

definition destroy :: "err \<Rightarrow> TypeScriptServer \<Rightarrow> TypeScriptServer" where
  "destroy cause s =
     (let s1 = fold (\<lambda>callback. onError callback cause) (map snd (m_callbacks (callbacks s))) s;
          s2 = s1\<lparr>callbacks := (callbacks s1)\<lparr>m_callbacks := []\<rparr>\<rparr>;
          s3 = fold (\<lambda>callback. onError callback cause) (map snd (m_asyncCallbacks (callbacks s2))) s2
      in s3\<lparr>callbacks := (callbacks s3)\<lparr>m_asyncCallbacks := []\<rparr>\<rparr>)"

subsection \<open>The methods of \<open>TypeScriptServer\<close>\<close>

text \<open>\<open>writeRequest\<close> is the method \<open>write\<close>: it throws (\<open>JSON.stringify\<close> or the stream may)
  or appends the request to the worker's input. Whether it throws is the environment's
  choice: \<open>fails\<close> gives the message of what is thrown for a request, \<open>None\<close> when the write
  goes through.\<close>

definition writeRequest :: "(Request \<Rightarrow> string option) \<Rightarrow> Request \<Rightarrow> TypeScriptServer \<Rightarrow> err + TypeScriptServer" where
  "writeRequest fails serverRequest s =
     (case fails serverRequest of
        Some m \<Rightarrow> Inl (Thrown m)
      | None \<Rightarrow> Inr (s\<lparr>stdin := stdin s @ [serverRequest]\<rparr>))"

definition fetchCallback :: "nat \<Rightarrow> TypeScriptServer \<Rightarrow> CallbackItem option \<times> TypeScriptServer" where
  "fetchCallback sq s =
     (let (callback, m) = fetch sq (callbacks s);
          s1 = s\<lparr>callbacks := m\<rparr>
      in case callback of
           None \<Rightarrow> (None, s1)
         | Some cb \<Rightarrow> (Some cb, s1\<lparr>pendingResponses := pendingResponses s1 - {sq}\<rparr>))"

definition sendRequest :: "(Request \<Rightarrow> string option) \<Rightarrow> RequestItem \<Rightarrow> TypeScriptServer \<Rightarrow> TypeScriptServer" where
  "sendRequest fails requestItem s =
     (let serverRequest = request requestItem;
          s1 = (if expectsResponse requestItem \<and> \<not> isAsync requestItem
                then s\<lparr>pendingResponses := insert (seq (request requestItem)) (pendingResponses s)\<rparr>
                else s)
      in case writeRequest fails serverRequest s1 of
           Inr s2 \<Rightarrow> s2
         | Inl e \<Rightarrow>
             (let (callback, s2) = fetchCallback (seq serverRequest) s1
              in case callback of Some cb \<Rightarrow> onError cb e s2 | None \<Rightarrow> s2))"

text \<open>The loop of \<open>sendNextRequests\<close>. \<open>_pendingResponses.size === 0\<close> is
  \<open>pendingResponses s = {}\<close>. Each round takes one item off the queue and \<open>sendRequest\<close>
  leaves the queue alone, so the loop ends.\<close>

function sendNextRequests :: "(Request \<Rightarrow> string option) \<Rightarrow> TypeScriptServer \<Rightarrow> TypeScriptServer" where
  "sendNextRequests fails s =
     (if pendingResponses s = {} \<and> length (queue (requestQueue s)) > 0
      then (let (item, q) = shift (requestQueue s);
                s1 = s\<lparr>requestQueue := q\<rparr>
            in case item of
                 Some it \<Rightarrow> sendNextRequests fails (sendRequest fails it s1)
               | None \<Rightarrow> sendNextRequests fails s1)
      else s)"
  by pat_completeness auto
termination
  by (relation "measure (\<lambda>(fails, s). length (queue (requestQueue s)))")
     (auto simp: shift_def sendRequest_def writeRequest_def fetchCallback_def fetch_def
        onError_def reject_def Let_def
        split: list.splits option.splits prod.splits if_splits)

definition dispatchResponse :: "Response \<Rightarrow> TypeScriptServer \<Rightarrow> TypeScriptServer" where
  "dispatchResponse response s =
     (let (callback, s1) = fetchCallback (request_seq response) s
      in case callback of
           None \<Rightarrow> s1
         | Some cb \<Rightarrow>
             if success response then onSuccess cb (Some response) s1
             else onError cb (ErrorResponse response) s1)"

text \<open>\<open>dispatchMessage\<close> returns what it throws, if anything, and the state. The \<open>finally\<close>
  block runs \<open>sendNextRequests\<close> on every path. The event \<open>requestCompleted\<close> calls
  \<open>this._callbacks.fetch\<close>, not \<open>fetchCallback\<close>.\<close>

definition dispatchMessage :: "(Request \<Rightarrow> string option) \<Rightarrow> Message \<Rightarrow> TypeScriptServer \<Rightarrow> err option \<times> TypeScriptServer" where
  "dispatchMessage fails msg s =
     (let (thrown, s1) =
        (case msg of
           ResponseMsg response \<Rightarrow> (None, dispatchResponse response s)
         | EventMsg ev \<Rightarrow>
             if event ev = ''requestCompleted''
             then (let sq = body_request_seq ev;
                       (p, m) = fetch sq (callbacks s);
                       s' = s\<lparr>callbacks := m\<rparr>
                   in (None, case p of Some cb \<Rightarrow> onSuccess cb None s' | None \<Rightarrow> s'))
             else (None, s\<lparr>fired := fired s @ [OnEventFired ev]\<rparr>)
         | UnknownMsg t \<Rightarrow>
             (Some (Error (''Unknown message type '' @ t @ '' received'')), s))
      in (thrown, sendNextRequests fails s1))"

text \<open>\<open>tryCancelRequest\<close>: the \<open>finally\<close> block runs after each of the three returns. A
  pipe name counts when it is neither undefined nor empty; the file written there is named
  by the pipe name followed by the sequence number, and a failure of that write is caught.
  \<open>cancelledRequest sq\<close> is the error made in the \<open>finally\<close> block.\<close>

definition cancelledRequest :: "nat \<Rightarrow> err" where
  "cancelledRequest sq = Error (''Cancelled Request '' @ string_of_nat sq)"

definition tryCancelRequest :: "nat \<Rightarrow> TypeScriptServer \<Rightarrow> bool \<times> TypeScriptServer" where
  "tryCancelRequest sq s =
     (let (found, q) = tryCancelPendingRequest sq (requestQueue s);
          (result, s1) =
            (if found then (True, s\<lparr>requestQueue := q\<rparr>)
             else (case cancellationPipeName s of
                     Some name \<Rightarrow>
                       if name \<noteq> []
                       then (True, s\<lparr>pipeFiles := pipeFiles s @ [name @ string_of_nat sq]\<rparr>)
                       else (False, s)
                   | None \<Rightarrow> (False, s)));
          (callback, s2) = fetchCallback sq s1
      in (result,
          case callback of
            Some cb \<Rightarrow> onError cb (cancelledRequest sq) s2
          | None \<Rightarrow> s2))"

text \<open>The listener that \<open>executeImpl\<close> hands to \<open>token.onCancellationRequested\<close>; it exists
  for a request submitted with a token and \<open>expectsResult\<close>.\<close>

definition onCancellationRequested :: "nat \<Rightarrow> TypeScriptServer \<Rightarrow> TypeScriptServer" where
  "onCancellationRequested p s =
     (case closures s p of
        None \<Rightarrow> s
      | Some c \<Rightarrow>
          if token (cl_info c)
          then snd (tryCancelRequest p (s\<lparr>closures := (closures s)(p \<mapsto> c\<lparr>wasCancelled := True\<rparr>)\<rparr>))
          else s)"

text \<open>\<open>executeImpl\<close> returns the promise it made (named by the sequence number), or \<open>None\<close>
  for \<open>Promise.resolve(null)\<close>. \<open>now\<close> is \<open>Date.now()\<close>.\<close>

definition executeImpl :: "(Request \<Rightarrow> string option) \<Rightarrow> nat \<Rightarrow> string \<Rightarrow> string \<Rightarrow> ExecuteInfo \<Rightarrow> TypeScriptServer \<Rightarrow> nat option \<times> TypeScriptServer" where
  "executeImpl fails now cmd args executeInfo s =
     (let (rq, q) = createRequest cmd args (requestQueue s);
          s1 = s\<lparr>requestQueue := q\<rparr>;
          requestInfo = \<lparr>request = rq, expectsResponse = expectsResult executeInfo,
                         isAsync = info_isAsync executeInfo\<rparr>;
          (result, s2) =
            (if expectsResult executeInfo
             then (Some (seq rq),
                   s1\<lparr>closures := (closures s1)(seq rq \<mapsto>
                          \<lparr>cl_command = cmd, cl_info = executeInfo, wasCancelled = False\<rparr>),
                       callbacks := add (seq rq)
                          \<lparr>promise = seq rq, startTime = now, cb_isAsync = info_isAsync executeInfo\<rparr>
                          (info_isAsync executeInfo) (callbacks s1)\<rparr>)
             else (None, s1));
          s3 = s2\<lparr>requestQueue := push requestInfo (requestQueue s2)\<rparr>
      in (result, sendNextRequests fails s3))"

definition handleExit :: "string \<Rightarrow> TypeScriptServer \<Rightarrow> TypeScriptServer" where
  "handleExit code s = destroy (Error ''server exited'') (s\<lparr>fired := fired s @ [OnExitFired code]\<rparr>)"

definition handleError :: "string \<Rightarrow> TypeScriptServer \<Rightarrow> TypeScriptServer" where
  "handleError e s = destroy (Error ''server errored'') (s\<lparr>fired := fired s @ [OnErrorFired e]\<rparr>)"

text \<open>\<open>super.dispose()\<close> disposes the three emitters and touches no field of the engine.\<close>

definition dispose :: "TypeScriptServer \<Rightarrow> TypeScriptServer" where
  "dispose s = (destroy (Error ''server disposed'') s)\<lparr>pendingResponses := {}\<rparr>"

subsection \<open>Sequences of operations\<close>

text \<open>What can happen to a server, one entry point at a time: a submission, a message
  from the reader, a cancellation token firing, the worker's \<open>exit\<close> and \<open>error\<close> events,
  \<open>dispose\<close>, and the JavaScript engine running the scheduled microtasks. A submission and
  a dispatch carry the environment's choice of the writes that throw while they run.

  The continuations are the \<open>resolve\<close> and \<open>reject\<close> of a promise, so invoking one runs no
  code of a caller: that code runs later, as a microtask. A subscriber of an emitter may call
  back into the server while \<open>fire\<close> runs; in \<open>dispatchMessage\<close>, \<open>handleExit\<close> and
  \<open>handleError\<close> the call of \<open>fire\<close> comes before anything else is done to the state, so such
  calls are operations that come earlier in the sequence.\<close>

datatype operation =
    Execute "Request \<Rightarrow> string option" nat string string ExecuteInfo
  | Dispatch "Request \<Rightarrow> string option" Message
  | Cancel nat
  | WorkerExit string
  | WorkerError string
  | Dispose
  | Microtasks

fun step :: "operation \<Rightarrow> TypeScriptServer \<Rightarrow> TypeScriptServer" where
  "step (Execute fails now cmd args executeInfo) s = snd (executeImpl fails now cmd args executeInfo s)"
| "step (Dispatch fails msg) s = snd (dispatchMessage fails msg s)"
| "step (Cancel p) s = onCancellationRequested p s"
| "step (WorkerExit code) s = handleExit code s"
| "step (WorkerError e) s = handleError e s"
| "step Dispose s = dispose s"
| "step Microtasks s = runMicrotasks s"

definition run :: "operation list \<Rightarrow> TypeScriptServer \<Rightarrow> TypeScriptServer" where
  "run ops s = fold step ops s"

subsection \<open>Observations on a state\<close>

text \<open>An outcome is registered for a sequence number when \<open>CallbackMap.fetch\<close> would find
  a callback for it. \<open>queued\<close> lists the sequence numbers waiting in the queue, in order.
  \<open>resolutions p\<close> counts how often a continuation of promise \<open>p\<close> has been invoked.\<close>

definition registered :: "nat \<Rightarrow> TypeScriptServer \<Rightarrow> bool" where
  "registered sq s = (fst (fetch sq (callbacks s)) \<noteq> None)"

definition queued :: "TypeScriptServer \<Rightarrow> nat list" where
  "queued s = map (\<lambda>item. seq (request item)) (queue (requestQueue s))"

fun invoked_promise :: "invocation \<Rightarrow> nat" where
  "invoked_promise (OnSuccess p v) = p"
| "invoked_promise (OnError p e) = p"

definition resolutions :: "nat \<Rightarrow> TypeScriptServer \<Rightarrow> nat" where
  "resolutions p s = length (filter (\<lambda>i. invoked_promise i = p) (invocations s))"

subsection \<open>Invariants of the reachable states\<close>

text \<open>The two callback maps have distinct keys and share none; a callback sits under the
  sequence number of its own promise, and that number has been handed out already.\<close>

definition inv_callbacks :: "TypeScriptServer \<Rightarrow> bool" where
  "inv_callbacks s \<longleftrightarrow>
     distinct (map fst (m_callbacks (callbacks s))) \<and>
     distinct (map fst (m_asyncCallbacks (callbacks s))) \<and>
     fst ` set (m_callbacks (callbacks s)) \<inter> fst ` set (m_asyncCallbacks (callbacks s)) = {} \<and>
     (\<forall>k cb. (k, cb) \<in> set (m_callbacks (callbacks s)) \<union> set (m_asyncCallbacks (callbacks s))
        \<longrightarrow> promise cb = k \<and> k < sequenceNumber (requestQueue s))"

text \<open>The sequence numbers in the queue are distinct and handed out already; what is in the
  in-flight set has been handed out, is not in the queue any more, and is alone there.\<close>

definition inv_queue :: "TypeScriptServer \<Rightarrow> bool" where
  "inv_queue s \<longleftrightarrow>
     distinct (queued s) \<and>
     (\<forall>x \<in> set (queued s). x < sequenceNumber (requestQueue s)) \<and>
     (\<forall>x \<in> pendingResponses s. x < sequenceNumber (requestQueue s) \<and> x \<notin> set (queued s)) \<and>
     (pendingResponses s = {} \<or> (\<exists>x. pendingResponses s = {x}))"

text \<open>A promise made by \<open>executeImpl\<close> is either still registered and has seen no continuation
  invoked, or is no longer registered and has seen exactly one; a sequence number without
  such a promise has seen none.\<close>

definition inv_count :: "TypeScriptServer \<Rightarrow> bool" where
  "inv_count s \<longleftrightarrow>
     (\<forall>p. resolutions p s + (if registered p s then 1 else 0) =
            (if closures s p = None then 0 else 1)) \<and>
     (\<forall>p. closures s p \<noteq> None \<longrightarrow> p < sequenceNumber (requestQueue s))"

text \<open>A queued item that expects a response belongs to a promise whose \<open>executeInfo\<close> has
  the item's \<open>isAsync\<close>; whatever is in the in-flight set belongs to a synchronous one.\<close>

definition inv_kind :: "TypeScriptServer \<Rightarrow> bool" where
  "inv_kind s \<longleftrightarrow>
     (\<forall>item \<in> set (queue (requestQueue s)). expectsResponse item \<longrightarrow>
        (\<exists>c. closures s (seq (request item)) = Some c \<and> info_isAsync (cl_info c) = isAsync item)) \<and>
     (\<forall>x \<in> pendingResponses s. \<exists>c. closures s x = Some c \<and> \<not> info_isAsync (cl_info c))"

text \<open>A scheduled rejection handler belongs to a promise made already, and when the
  rejection is a cancellation error, \<open>wasCancelled\<close> of that promise is set.\<close>

definition inv_jobs :: "TypeScriptServer \<Rightarrow> bool" where
  "inv_jobs s \<longleftrightarrow>
     (\<forall>p e. (p, e) \<in> set (microtasks s) \<longrightarrow>
        p < sequenceNumber (requestQueue s) \<and>
        ((\<exists>n. e = cancelledRequest n) \<longrightarrow> (\<exists>c. closures s p = Some c \<and> wasCancelled c)))"

definition invariant :: "TypeScriptServer \<Rightarrow> bool" where
  "invariant s \<longleftrightarrow> inv_callbacks s \<and> inv_queue s \<and> inv_count s \<and> inv_kind s \<and> inv_jobs s"

text \<open>A settled promise is no longer registered.\<close>

definition inv_settled :: "TypeScriptServer \<Rightarrow> bool" where
  "inv_settled s \<longleftrightarrow>
     (\<forall>p \<in> settled s. \<not> registered p s \<and> p < sequenceNumber (requestQueue s))"

definition sound :: "TypeScriptServer \<Rightarrow> bool" where
  "sound s \<longleftrightarrow> invariant s \<and> inv_settled s"

text \<open>The queue is in the order of its sequence numbers, what is in the in-flight set was
  taken off the head of the queue, so it is smaller than every number still queued, and
  every request written to the worker has a sequence number handed out already.\<close>

definition inv_order :: "TypeScriptServer \<Rightarrow> bool" where
  "inv_order s \<longleftrightarrow>
     sorted (queued s) \<and>
     (\<forall>x \<in> pendingResponses s. \<forall>y \<in> set (queued s). x < y) \<and>
     (\<forall>rq \<in> set (stdin s). seq rq < sequenceNumber (requestQueue s))"

subsection \<open>Shorthands for the proofs\<close>

text \<open>\<open>failCallback\<close> is the pattern shared by \<open>sendRequest\<close> and \<open>tryCancelRequest\<close>: fetch
  the callback and, when there is one, call its \<open>onError\<close>. \<open>shifted s rest\<close> is the state
  once the head of the queue has been taken off.\<close>

definition failCallback :: "nat \<Rightarrow> err \<Rightarrow> TypeScriptServer \<Rightarrow> TypeScriptServer" where
  "failCallback sq e s =
     (let (callback, s2) = fetchCallback sq s
      in case callback of Some cb \<Rightarrow> onError cb e s2 | None \<Rightarrow> s2)"

abbreviation shifted :: "TypeScriptServer \<Rightarrow> RequestItem list \<Rightarrow> TypeScriptServer" where
  "shifted s rest \<equiv> s\<lparr>requestQueue := (requestQueue s)\<lparr>queue := rest\<rparr>\<rparr>"

text \<open>\<open>received msg s\<close> is the state at the end of the \<open>try\<close> block of
  \<open>dispatchMessage\<close>, and \<open>submitted\<close> the state of \<open>executeImpl\<close> just before it calls
  \<open>sendNextRequests\<close>; both are proved equal to the code's own text below
  (\<open>dispatchMessage_alt\<close>, \<open>executeImpl_alt\<close>). \<open>drains\<close> holds of the operations that end
  by calling \<open>sendNextRequests\<close>.\<close>

definition received :: "Message \<Rightarrow> TypeScriptServer \<Rightarrow> TypeScriptServer" where
  "received msg s =
     (case msg of
        ResponseMsg response \<Rightarrow> dispatchResponse response s
      | EventMsg ev \<Rightarrow>
          if event ev = ''requestCompleted''
          then (case fst (fetch (body_request_seq ev) (callbacks s)) of
                  Some cb \<Rightarrow> onSuccess cb None (s\<lparr>callbacks := delete (body_request_seq ev) (callbacks s)\<rparr>)
                | None \<Rightarrow> s\<lparr>callbacks := delete (body_request_seq ev) (callbacks s)\<rparr>)
          else s\<lparr>fired := fired s @ [OnEventFired ev]\<rparr>
      | UnknownMsg t \<Rightarrow> s)"

definition submitted :: "nat \<Rightarrow> string \<Rightarrow> string \<Rightarrow> ExecuteInfo \<Rightarrow> TypeScriptServer \<Rightarrow> TypeScriptServer" where
  "submitted now cmd args executeInfo s =
     (let n = sequenceNumber (requestQueue s);
          item = \<lparr>request = \<lparr>seq = n, command = cmd, arguments = args\<rparr>,
                  expectsResponse = expectsResult executeInfo, isAsync = info_isAsync executeInfo\<rparr>;
          s1 = (if expectsResult executeInfo
                then s\<lparr>closures := (closures s)(n \<mapsto>
                          \<lparr>cl_command = cmd, cl_info = executeInfo, wasCancelled = False\<rparr>),
                       callbacks := add n \<lparr>promise = n, startTime = now, cb_isAsync = info_isAsync executeInfo\<rparr>
                          (info_isAsync executeInfo) (callbacks s)\<rparr>
                else s)
      in s1\<lparr>requestQueue := (requestQueue s)\<lparr>sequenceNumber := n + 1,
                                              queue := queue (requestQueue s) @ [item]\<rparr>\<rparr>)"

fun drains :: "operation \<Rightarrow> bool" where
  "drains (Execute fails now cmd args executeInfo) = True"
| "drains (Dispatch fails msg) = True"
| "drains other = False"

text \<open>\<open>resolves sq s t\<close>: from \<open>s\<close> to \<open>t\<close> the callback of \<open>sq\<close>, if there was one, has been
  fetched and one of its continuations invoked; nothing else of the engine changed, but the
  in-flight set may have shrunk.\<close>

definition resolves :: "nat \<Rightarrow> TypeScriptServer \<Rightarrow> TypeScriptServer \<Rightarrow> bool" where
  "resolves sq s t \<longleftrightarrow>
     callbacks t = delete sq (callbacks s) \<and>
     requestQueue t = requestQueue s \<and>
     closures t = closures s \<and>
     pendingResponses t \<subseteq> pendingResponses s \<and>
     (\<forall>p. resolutions p t = resolutions p s + (if p = sq \<and> registered sq s then 1 else 0))"

text \<open>\<open>marked item rest s\<close>: the head \<open>item\<close> is off the queue and, when it is synchronous and
  expects a response, in the in-flight set: the state of \<open>sendRequest\<close> just before it
  writes.\<close>

definition marked :: "RequestItem \<Rightarrow> RequestItem list \<Rightarrow> TypeScriptServer \<Rightarrow> TypeScriptServer" where
  "marked item rest s =
     (if expectsResponse item \<and> \<not> isAsync item
      then (shifted s rest)\<lparr>pendingResponses := insert (seq (request item)) (pendingResponses s)\<rparr>
      else shifted s rest)"

text \<open>\<open>unqueued sq s\<close>: the state of \<open>tryCancelRequest\<close> when it enters its \<open>finally\<close>
  block.\<close>

definition unqueued :: "nat \<Rightarrow> TypeScriptServer \<Rightarrow> TypeScriptServer" where
  "unqueued sq s =
     (if fst (tryCancelPendingRequest sq (requestQueue s))
      then s\<lparr>requestQueue := snd (tryCancelPendingRequest sq (requestQueue s))\<rparr>
      else (case cancellationPipeName s of
              Some name \<Rightarrow>
                if name \<noteq> [] then s\<lparr>pipeFiles := pipeFiles s @ [name @ string_of_nat sq]\<rparr> else s
            | None \<Rightarrow> s))"

text \<open>\<open>report s job\<close>: what the \<open>catch\<close> handler of \<open>executeImpl\<close> gives to \<open>logTelemetry\<close>
  when it runs for \<open>job\<close> in state \<open>s\<close>.\<close>

definition report :: "TypeScriptServer \<Rightarrow> nat \<times> err \<Rightarrow> (string \<times> (string \<rightharpoonup> string)) list" where
  "report s job =
     (case closures s (fst job) of
        None \<Rightarrow> []
      | Some c \<Rightarrow>
          if \<not> wasCancelled c
          then [(''languageServiceErrorResponse'',
                 parseErrorText (err_message (snd job)) (cl_command c))]
          else [])"

text \<open>\<open>held a itemB X s\<close>: the synchronous request \<open>a\<close> is in flight and unresolved, the
  worker's input is \<open>X\<close>, and \<open>itemB\<close>, when it is still queued, is the head of the queue.\<close>

definition held :: "nat \<Rightarrow> RequestItem \<Rightarrow> Request list \<Rightarrow> TypeScriptServer \<Rightarrow> bool" where
  "held a itemB X s \<longleftrightarrow>
     registered a s \<and> a \<in> pendingResponses s \<and> stdin s = X \<and>
     a < sequenceNumber (requestQueue s) \<and>
     seq (request itemB) < sequenceNumber (requestQueue s) \<and>
     (seq (request itemB) \<in> set (queued s) \<longrightarrow> (\<exists>rest. queue (requestQueue s) = itemB # rest))"

text \<open>\<open>waiting a reqB s\<close>: the outcome of request \<open>a\<close> is registered, \<open>a\<close> is still queued or
  in flight, and no request with the next sequence number has been written; a queued item
  numbered \<open>a\<close> is synchronous and expects a response, and a queued item with the next
  number carries the request \<open>reqB\<close>.\<close>

definition waiting :: "nat \<Rightarrow> Request \<Rightarrow> TypeScriptServer \<Rightarrow> bool" where
  "waiting a reqB s \<longleftrightarrow>
     registered a s \<and> seq reqB = Suc a \<and>
     (a \<in> set (queued s) \<or> a \<in> pendingResponses s) \<and>
     Suc a \<notin> seq ` set (stdin s) \<and>
     (\<forall>item \<in> set (queue (requestQueue s)).
        (seq (request item) = a \<longrightarrow> expectsResponse item \<and> \<not> isAsync item) \<and>
        (seq (request item) = Suc a \<longrightarrow> request item = reqB))"

subsection \<open>Concrete scenarios\<close>

text \<open>States and inputs on which the theorems are tried: an environment in which no write
  throws, the \<open>executeInfo\<close> of a synchronous and of an asynchronous request that expect a
  result and have a cancellation token, and states reached from a new server.\<close>

definition no_failure :: "Request \<Rightarrow> string option" where
  "no_failure rq = None"

definition sync_info :: ExecuteInfo where
  "sync_info = \<lparr>info_isAsync = False, token = True, expectsResult = True\<rparr>"

definition async_info :: ExecuteInfo where
  "async_info = \<lparr>info_isAsync = True, token = True, expectsResult = True\<rparr>"

definition one_in_flight :: TypeScriptServer where
  "one_in_flight = run [Execute no_failure 7 ''quickinfo'' ''{}'' sync_info] (new_server (Some ''pipe''))"

text \<open>A synchronous request in flight, a second synchronous request and an asynchronous one
  waiting behind it.\<close>

definition two_waiting :: TypeScriptServer where
  "two_waiting =
     run [Execute no_failure 1 ''quickinfo'' ''a'' sync_info,
          Execute no_failure 2 ''completions'' ''b'' sync_info,
          Execute no_failure 3 ''geterr'' ''c'' async_info] (new_server None)"

definition second_item :: RequestItem where
  "second_item = \<lparr>request = \<lparr>seq = 1, command = ''completions'', arguments = ''b''\<rparr>,
                    expectsResponse = True, isAsync = False\<rparr>"

definition third_item :: RequestItem where
  "third_item = \<lparr>request = \<lparr>seq = 2, command = ''geterr'', arguments = ''c''\<rparr>,
                   expectsResponse = True, isAsync = True\<rparr>"

text \<open>A successful response; a synchronous request that is registered, and operations
  that then resolve it and cancel an asynchronous one.\<close>

definition success_of :: "nat \<Rightarrow> Message" where
  "success_of sq = ResponseMsg \<lparr>request_seq = sq, success = True, message = None, body = ''{}''\<rparr>"

definition first_registered :: "operation list" where
  "first_registered = [Execute no_failure 1 ''quickinfo'' ''a'' sync_info]"

definition then_resolved :: "operation list" where
  "then_resolved =
     [Execute no_failure 2 ''geterr'' ''b'' async_info, Dispatch no_failure (success_of 0), Cancel 1]"

text \<open>The completion event for a sequence number. In \<open>exit_scenario\<close> an asynchronous
  request (0) is in flight, a synchronous one (1) has been sent and then completed by a
  completion event, and two more synchronous ones (2, 3) wait in the queue: three
  outcomes are registered.\<close>

definition completed_event :: "nat \<Rightarrow> Message" where
  "completed_event sq = EventMsg \<lparr>event = ''requestCompleted'', body_request_seq = sq\<rparr>"

definition exit_scenario :: TypeScriptServer where
  "exit_scenario =
     run [Execute no_failure 1 ''geterr'' ''a'' async_info,
          Execute no_failure 2 ''quickinfo'' ''b'' sync_info,
          Dispatch no_failure (completed_event 1),
          Execute no_failure 3 ''completions'' ''c'' sync_info,
          Execute no_failure 4 ''definition'' ''d'' sync_info] (new_server None)"

text \<open>An environment in which every write throws. A synchronous request whose write
  threw; the same, with its cancellation token fired afterwards, before any microtask
  ran; and a request in flight that was cancelled.\<close>

definition throwing :: "Request \<Rightarrow> string option" where
  "throwing rq = Some ''write EPIPE''"

definition write_failed :: TypeScriptServer where
  "write_failed = run [Execute throwing 1 ''quickinfo'' ''a'' sync_info] (new_server None)"

definition failed_then_cancelled :: TypeScriptServer where
  "failed_then_cancelled =
     run [Execute throwing 1 ''quickinfo'' ''a'' sync_info, Cancel 0] (new_server None)"

definition cancelled_in_flight :: TypeScriptServer where
  "cancelled_in_flight =
     run [Execute no_failure 1 ''quickinfo'' ''a'' sync_info, Cancel 0] (new_server None)"

text \<open>An unsuccessful response, and two synchronous submissions in a row. \<open>busy_start\<close>
  puts a synchronous request in flight before them; \<open>first_answered\<close> is the response for
  that request, \<open>answered_early\<close> a response for the first of the two submissions, and
  \<open>later_on\<close> an asynchronous submission followed by the microtasks.\<close>

definition failure_of :: "nat \<Rightarrow> Response" where
  "failure_of sq = \<lparr>request_seq = sq, success = False, message = Some ''No project'', body = ''''\<rparr>"

definition first_second :: "operation list" where
  "first_second =
     [Execute no_failure 1 ''quickinfo'' ''a'' sync_info,
      Execute no_failure 2 ''completions'' ''b'' sync_info]"

definition busy_start :: "operation list" where
  "busy_start = [Execute no_failure 0 ''open'' ''x'' sync_info]"

definition first_answered :: "operation list" where
  "first_answered = [Dispatch no_failure (success_of 0)]"

definition later_on :: "operation list" where
  "later_on = [Execute no_failure 3 ''geterr'' ''c'' async_info, Microtasks]"

definition answered_early :: "operation list" where
  "answered_early = [Dispatch no_failure (success_of 1)]"

section \<open>Frame lemmas\<close>

text \<open>Invoking a continuation touches the promise and the log of invocations, nothing of
  the engine.\<close>

lemma resolve_frame [simp]:
  "requestQueue (resolve p s) = requestQueue s"
  "callbacks (resolve p s) = callbacks s"
  "pendingResponses (resolve p s) = pendingResponses s"
  "cancellationPipeName (resolve p s) = cancellationPipeName s"
  "stdin (resolve p s) = stdin s"
  "invocations (resolve p s) = invocations s"
  "fired (resolve p s) = fired s"
  "pipeFiles (resolve p s) = pipeFiles s"
  "closures (resolve p s) = closures s"
  "microtasks (resolve p s) = microtasks s"
  "telemetry (resolve p s) = telemetry s"
  by (simp_all add: resolve_def)

lemma reject_frame [simp]:
  "requestQueue (reject p e s) = requestQueue s"
  "callbacks (reject p e s) = callbacks s"
  "pendingResponses (reject p e s) = pendingResponses s"
  "cancellationPipeName (reject p e s) = cancellationPipeName s"
  "stdin (reject p e s) = stdin s"
  "invocations (reject p e s) = invocations s"
  "fired (reject p e s) = fired s"
  "pipeFiles (reject p e s) = pipeFiles s"
  "closures (reject p e s) = closures s"
  "telemetry (reject p e s) = telemetry s"
  by (simp_all add: reject_def)

lemma onSuccess_frame [simp]:
  "requestQueue (onSuccess cb v s) = requestQueue s"
  "callbacks (onSuccess cb v s) = callbacks s"
  "pendingResponses (onSuccess cb v s) = pendingResponses s"
  "cancellationPipeName (onSuccess cb v s) = cancellationPipeName s"
  "stdin (onSuccess cb v s) = stdin s"
  "invocations (onSuccess cb v s) = invocations s @ [OnSuccess (promise cb) v]"
  "fired (onSuccess cb v s) = fired s"
  "pipeFiles (onSuccess cb v s) = pipeFiles s"
  "closures (onSuccess cb v s) = closures s"
  "microtasks (onSuccess cb v s) = microtasks s"
  "telemetry (onSuccess cb v s) = telemetry s"
  by (simp_all add: onSuccess_def)

lemma onError_frame [simp]:
  "requestQueue (onError cb e s) = requestQueue s"
  "callbacks (onError cb e s) = callbacks s"
  "pendingResponses (onError cb e s) = pendingResponses s"
  "cancellationPipeName (onError cb e s) = cancellationPipeName s"
  "stdin (onError cb e s) = stdin s"
  "invocations (onError cb e s) = invocations s @ [OnError (promise cb) e]"
  "fired (onError cb e s) = fired s"
  "pipeFiles (onError cb e s) = pipeFiles s"
  "closures (onError cb e s) = closures s"
  "telemetry (onError cb e s) = telemetry s"
  by (simp_all add: onError_def)

lemma fold_onError_frame [simp]:
  "requestQueue (fold (\<lambda>cb. onError cb e) cbs s) = requestQueue s"
  "callbacks (fold (\<lambda>cb. onError cb e) cbs s) = callbacks s"
  "pendingResponses (fold (\<lambda>cb. onError cb e) cbs s) = pendingResponses s"
  "cancellationPipeName (fold (\<lambda>cb. onError cb e) cbs s) = cancellationPipeName s"
  "stdin (fold (\<lambda>cb. onError cb e) cbs s) = stdin s"
  "invocations (fold (\<lambda>cb. onError cb e) cbs s) = invocations s @ map (\<lambda>cb. OnError (promise cb) e) cbs"
  "fired (fold (\<lambda>cb. onError cb e) cbs s) = fired s"
  "pipeFiles (fold (\<lambda>cb. onError cb e) cbs s) = pipeFiles s"
  "closures (fold (\<lambda>cb. onError cb e) cbs s) = closures s"
  "telemetry (fold (\<lambda>cb. onError cb e) cbs s) = telemetry s"
  by (induction cbs arbitrary: s; simp)+

lemma destroy_frame [simp]:
  "requestQueue (destroy e s) = requestQueue s"
  "callbacks (destroy e s) = \<lparr>m_callbacks = [], m_asyncCallbacks = []\<rparr>"
  "pendingResponses (destroy e s) = pendingResponses s"
  "cancellationPipeName (destroy e s) = cancellationPipeName s"
  "stdin (destroy e s) = stdin s"
  "invocations (destroy e s) = invocations s @
     map (\<lambda>cb. OnError (promise cb) e)
       (map snd (m_callbacks (callbacks s)) @ map snd (m_asyncCallbacks (callbacks s)))"
  "fired (destroy e s) = fired s"
  "pipeFiles (destroy e s) = pipeFiles s"
  "closures (destroy e s) = closures s"
  "telemetry (destroy e s) = telemetry s"
  by (simp_all add: destroy_def Let_def)

section \<open>The primitives: fetching a callback, the send loop\<close>

lemma delete_absent: "map_of al k = None \<Longrightarrow> AList.delete k al = al"
  by (induction al) (auto simp: AList.delete_eq split: if_splits)

lemma registered_map_of:
  "registered sq s \<longleftrightarrow>
     \<not> (map_of (m_callbacks (callbacks s)) sq = None \<and>
        map_of (m_asyncCallbacks (callbacks s)) sq = None)"
  by (simp add: registered_def fetch_def Let_def split: option.splits)

lemma registered_keys:
  "registered sq s \<longleftrightarrow>
     sq \<in> fst ` set (m_callbacks (callbacks s)) \<union> fst ` set (m_asyncCallbacks (callbacks s))"
  by (simp add: registered_map_of map_of_eq_None_iff)

lemma fetchCallback_absent:
  "\<not> registered sq s \<Longrightarrow> fetchCallback sq s = (None, s)"
  by (simp add: registered_map_of fetchCallback_def fetch_def delete_def delete_absent Let_def)

lemma fetchCallback_present:
  "fst (fetch sq (callbacks s)) = Some cb \<Longrightarrow>
   fetchCallback sq s =
     (Some cb, s\<lparr>callbacks := delete sq (callbacks s),
                 pendingResponses := pendingResponses s - {sq}\<rparr>)"
  by (simp add: fetchCallback_def Let_def split: prod.splits) (simp add: fetch_def Let_def)

lemma fetchCallback_frame [simp]:
  "requestQueue (snd (fetchCallback sq s)) = requestQueue s"
  "cancellationPipeName (snd (fetchCallback sq s)) = cancellationPipeName s"
  "stdin (snd (fetchCallback sq s)) = stdin s"
  "invocations (snd (fetchCallback sq s)) = invocations s"
  "fired (snd (fetchCallback sq s)) = fired s"
  "pipeFiles (snd (fetchCallback sq s)) = pipeFiles s"
  "closures (snd (fetchCallback sq s)) = closures s"
  "settled (snd (fetchCallback sq s)) = settled s"
  "microtasks (snd (fetchCallback sq s)) = microtasks s"
  "telemetry (snd (fetchCallback sq s)) = telemetry s"
  "callbacks (snd (fetchCallback sq s)) = delete sq (callbacks s)"
  "fst (fetchCallback sq s) = fst (fetch sq (callbacks s))"
  by (simp_all add: fetchCallback_def fetch_def Let_def split: option.splits)

lemma fetchCallback_pending:
  "pendingResponses (snd (fetchCallback sq s)) =
     (if registered sq s then pendingResponses s - {sq} else pendingResponses s)"
  by (simp add: fetchCallback_def fetch_def registered_def Let_def split: option.splits)

declare sendNextRequests.simps [simp del]

declare string_of_nat.simps [simp del]

lemma sendNextRequests_stop:
  "pendingResponses s \<noteq> {} \<or> queue (requestQueue s) = [] \<Longrightarrow> sendNextRequests fails s = s"
  by (subst sendNextRequests.simps) auto

lemma sendNextRequests_go:
  "pendingResponses s = {} \<Longrightarrow> queue (requestQueue s) = item # rest \<Longrightarrow>
   sendNextRequests fails s =
     sendNextRequests fails (sendRequest fails item (s\<lparr>requestQueue := (requestQueue s)\<lparr>queue := rest\<rparr>\<rparr>))"
  by (subst sendNextRequests.simps) (simp add: shift_def Let_def)

section \<open>Association lists and the callback maps\<close>

lemma update_fresh: "k \<notin> fst ` set al \<Longrightarrow> AList.update k v al = al @ [(k, v)]"
  by (induction al) auto

lemma set_delete: "set (AList.delete k al) = {p \<in> set al. fst p \<noteq> k}"
  by (auto simp: AList.delete_eq)

lemma keys_delete: "fst ` set (AList.delete k al) = fst ` set al - {k}"
  by (auto simp: set_delete)

lemma delete_sync:
  "m_callbacks (delete sq m) = AList.delete sq (m_callbacks m)"
  by (simp add: delete_def delete_absent)

lemma delete_async:
  "m_asyncCallbacks (delete sq m) =
     (if sq \<in> fst ` set (m_callbacks m) then m_asyncCallbacks m
      else AList.delete sq (m_asyncCallbacks m))"
  by (simp add: delete_def map_of_eq_None_iff)

lemma inv_callbacks_delete:
  assumes "inv_callbacks s"
    and c: "callbacks t = delete sq (callbacks s)"
    and n: "sequenceNumber (requestQueue s) \<le> sequenceNumber (requestQueue t)"
  shows "inv_callbacks t"
proof -
  let ?S = "m_callbacks (callbacks s)" and ?A = "m_asyncCallbacks (callbacks s)"
  from assms(1) have d: "distinct (map fst ?S)" "distinct (map fst ?A)"
    and x: "fst ` set ?S \<inter> fst ` set ?A = {}"
    and b: "\<And>k cb. (k, cb) \<in> set ?S \<union> set ?A \<Longrightarrow> promise cb = k \<and> k < sequenceNumber (requestQueue s)"
    unfolding inv_callbacks_def by blast+
  have sub: "set (m_callbacks (callbacks t)) \<subseteq> set ?S" "set (m_asyncCallbacks (callbacks t)) \<subseteq> set ?A"
    by (auto simp: c delete_sync delete_async set_delete)
  have "distinct (map fst (m_callbacks (callbacks t)))"
    by (simp add: c delete_sync AList.distinct_delete d)
  moreover have "distinct (map fst (m_asyncCallbacks (callbacks t)))"
    by (simp add: c delete_async AList.distinct_delete d)
  moreover have "fst ` set (m_callbacks (callbacks t)) \<inter> fst ` set (m_asyncCallbacks (callbacks t)) = {}"
    using x sub by blast
  moreover have "\<And>k cb. (k, cb) \<in> set (m_callbacks (callbacks t)) \<union> set (m_asyncCallbacks (callbacks t))
      \<Longrightarrow> promise cb = k \<and> k < sequenceNumber (requestQueue t)"
  proof -
    fix k cb assume "(k, cb) \<in> set (m_callbacks (callbacks t)) \<union> set (m_asyncCallbacks (callbacks t))"
    with sub have "(k, cb) \<in> set ?S \<union> set ?A" by blast
    from b[OF this] n show "promise cb = k \<and> k < sequenceNumber (requestQueue t)" by simp
  qed
  ultimately show ?thesis unfolding inv_callbacks_def by blast
qed

lemma inv_callbacks_same:
  assumes "inv_callbacks s"
    and "callbacks t = callbacks s"
    and "sequenceNumber (requestQueue s) \<le> sequenceNumber (requestQueue t)"
  shows "inv_callbacks t"
proof -
  have "\<And>k. k < sequenceNumber (requestQueue s) \<Longrightarrow> k < sequenceNumber (requestQueue t)"
    using assms(3) by simp
  then show ?thesis using assms(1) unfolding inv_callbacks_def assms(2) by blast
qed

lemma registered_after_delete:
  assumes "inv_callbacks s" and c: "callbacks t = delete sq (callbacks s)"
  shows "registered p t \<longleftrightarrow> registered p s \<and> p \<noteq> sq"
proof -
  from assms(1) have x: "fst ` set (m_callbacks (callbacks s)) \<inter> fst ` set (m_asyncCallbacks (callbacks s)) = {}"
    unfolding inv_callbacks_def by blast
  show ?thesis
  proof (cases "sq \<in> fst ` set (m_callbacks (callbacks s))")
    case True
    with x have "sq \<notin> fst ` set (m_asyncCallbacks (callbacks s))" by blast
    with True show ?thesis
      by (simp add: registered_keys c delete_sync delete_async keys_delete) blast
  next
    case False
    then show ?thesis
      by (simp add: registered_keys c delete_sync delete_async keys_delete) blast
  qed
qed

lemma fetch_Some_promise:
  assumes "inv_callbacks s" and f: "fst (fetch sq (callbacks s)) = Some cb"
  shows "promise cb = sq" and "sq < sequenceNumber (requestQueue s)"
proof -
  from f have "(sq, cb) \<in> set (m_callbacks (callbacks s)) \<union> set (m_asyncCallbacks (callbacks s))"
    by (auto simp: fetch_def Let_def split: option.splits dest: map_of_SomeD)
  with assms(1) show "promise cb = sq" and "sq < sequenceNumber (requestQueue s)"
    unfolding inv_callbacks_def by blast+
qed

section \<open>Failing a callback, sending a request, the send loop\<close>

lemma failCallback_absent: "\<not> registered sq s \<Longrightarrow> failCallback sq e s = s"
  by (simp add: failCallback_def fetchCallback_absent)

lemma failCallback_present:
  "fst (fetch sq (callbacks s)) = Some cb \<Longrightarrow>
   failCallback sq e s =
     onError cb e (s\<lparr>callbacks := delete sq (callbacks s),
                     pendingResponses := pendingResponses s - {sq}\<rparr>)"
  by (simp add: failCallback_def fetchCallback_present)

lemma registered_cases:
  obtains (absent) "\<not> registered sq s" | (present) cb where "fst (fetch sq (callbacks s)) = Some cb"
  by (auto simp: registered_def)

lemma failCallback_frame [simp]:
  "requestQueue (failCallback sq e s) = requestQueue s"
  "cancellationPipeName (failCallback sq e s) = cancellationPipeName s"
  "stdin (failCallback sq e s) = stdin s"
  "fired (failCallback sq e s) = fired s"
  "pipeFiles (failCallback sq e s) = pipeFiles s"
  "closures (failCallback sq e s) = closures s"
  "telemetry (failCallback sq e s) = telemetry s"
  "callbacks (failCallback sq e s) = delete sq (callbacks s)"
  by (cases sq s rule: registered_cases;
      simp add: failCallback_absent failCallback_present delete_def delete_absent registered_map_of)+

lemma failCallback_pending:
  "pendingResponses (failCallback sq e s) =
     (if registered sq s then pendingResponses s - {sq} else pendingResponses s)"
  by (cases sq s rule: registered_cases)
     (simp_all add: failCallback_absent failCallback_present registered_def)

lemma failCallback_invocations:
  "invocations (failCallback sq e s) =
     (case fst (fetch sq (callbacks s)) of
        None \<Rightarrow> invocations s
      | Some cb \<Rightarrow> invocations s @ [OnError (promise cb) e])"
  by (cases sq s rule: registered_cases)
     (simp_all add: failCallback_absent failCallback_present registered_def)

lemma sendRequest_alt:
  "sendRequest fails item s =
     (let s1 = (if expectsResponse item \<and> \<not> isAsync item
                then s\<lparr>pendingResponses := insert (seq (request item)) (pendingResponses s)\<rparr>
                else s)
      in case fails (request item) of
           None \<Rightarrow> s1\<lparr>stdin := stdin s1 @ [request item]\<rparr>
         | Some m \<Rightarrow> failCallback (seq (request item)) (Thrown m) s1)"
  by (simp add: sendRequest_def writeRequest_def failCallback_def Let_def split: option.splits)

lemma sendRequest_frame [simp]:
  "requestQueue (sendRequest fails item s) = requestQueue s"
  "cancellationPipeName (sendRequest fails item s) = cancellationPipeName s"
  "fired (sendRequest fails item s) = fired s"
  "pipeFiles (sendRequest fails item s) = pipeFiles s"
  "closures (sendRequest fails item s) = closures s"
  "telemetry (sendRequest fails item s) = telemetry s"
  by (simp_all add: sendRequest_alt Let_def split: option.splits)

lemma sendRequest_stdin:
  "stdin (sendRequest fails item s) =
     (if fails (request item) = None then stdin s @ [request item] else stdin s)"
  by (simp add: sendRequest_alt Let_def split: option.splits)

lemma sendRequest_pending_subset:
  "pendingResponses (sendRequest fails item s) \<subseteq>
     (if expectsResponse item \<and> \<not> isAsync item
      then insert (seq (request item)) (pendingResponses s) else pendingResponses s)"
  by (auto simp: sendRequest_alt Let_def failCallback_pending split: option.splits if_splits)

lemma sendNextRequests_rounds [case_names stop go]:
  assumes stop: "\<And>s. pendingResponses s \<noteq> {} \<or> queue (requestQueue s) = [] \<Longrightarrow> P s"
    and go: "\<And>s item rest. pendingResponses s = {} \<Longrightarrow> queue (requestQueue s) = item # rest \<Longrightarrow>
               P (sendRequest fails item (shifted s rest)) \<Longrightarrow> P s"
  shows "P s"
proof (induction "length (queue (requestQueue s))" arbitrary: s)
  case 0
  then show ?case by (simp add: stop)
next
  case (Suc n)
  show ?case
  proof (cases "pendingResponses s = {}")
    case False
    then show ?thesis by (simp add: stop)
  next
    case True
    from Suc.hyps(2) obtain item rest where q: "queue (requestQueue s) = item # rest"
      by (cases "queue (requestQueue s)") auto
    with Suc.hyps(2) have "n = length (queue (requestQueue (sendRequest fails item (shifted s rest))))"
      by simp
    from Suc.hyps(1)[OF this] show ?thesis by (rule go[OF True q])
  qed
qed

lemma sendNextRequests_preserves:
  assumes "I s"
    and "\<And>s item rest. I s \<Longrightarrow> pendingResponses s = {} \<Longrightarrow> queue (requestQueue s) = item # rest \<Longrightarrow>
            I (sendRequest fails item (shifted s rest))"
  shows "I (sendNextRequests fails s)"
  using assms(1)
proof (induction s rule: sendNextRequests_rounds[where fails = fails])
  case (stop s)
  then show ?case by (simp add: sendNextRequests_stop)
next
  case (go s item rest)
  then show ?case by (simp add: sendNextRequests_go assms(2))
qed

lemma sendNextRequests_frame [simp]:
  "cancellationPipeName (sendNextRequests fails s) = cancellationPipeName s"
  "fired (sendNextRequests fails s) = fired s"
  "pipeFiles (sendNextRequests fails s) = pipeFiles s"
  "closures (sendNextRequests fails s) = closures s"
  "telemetry (sendNextRequests fails s) = telemetry s"
  "sequenceNumber (requestQueue (sendNextRequests fails s)) = sequenceNumber (requestQueue s)"
  by (rule sendNextRequests_preserves[where I = "\<lambda>t. cancellationPipeName t = cancellationPipeName s"], simp, simp)
     (rule sendNextRequests_preserves[where I = "\<lambda>t. fired t = fired s"], simp, simp,
      rule sendNextRequests_preserves[where I = "\<lambda>t. pipeFiles t = pipeFiles s"], simp, simp,
      rule sendNextRequests_preserves[where I = "\<lambda>t. closures t = closures s"], simp, simp,
      rule sendNextRequests_preserves[where I = "\<lambda>t. telemetry t = telemetry s"], simp, simp,
      rule sendNextRequests_preserves[where I = "\<lambda>t. sequenceNumber (requestQueue t) = sequenceNumber (requestQueue s)"], simp, simp)

text \<open>After the loop the gate is closed or the queue is empty.\<close>

lemma sendNextRequests_drained:
  "pendingResponses (sendNextRequests fails s) \<noteq> {} \<or> queue (requestQueue (sendNextRequests fails s)) = []"
proof (induction s rule: sendNextRequests_rounds[where fails = fails])
  case (stop s)
  then show ?case by (simp add: sendNextRequests_stop)
next
  case (go s item rest)
  then show ?case by (simp add: sendNextRequests_go)
qed

text \<open>The loop only appends to the worker's input, and what it appends starts with the head
  of the queue when the gate is open and that write does not throw.\<close>

lemma sendNextRequests_stdin_prefix:
  "\<exists>more. stdin (sendNextRequests fails s) = stdin s @ more"
proof (induction s rule: sendNextRequests_rounds[where fails = fails])
  case (stop s)
  then show ?case by (simp add: sendNextRequests_stop)
next
  case (go s item rest)
  then show ?case by (auto simp: sendNextRequests_go sendRequest_stdin split: if_splits)
qed

lemma sendNextRequests_head:
  assumes "pendingResponses s = {}" and "queue (requestQueue s) = item # rest"
    and "fails (request item) = None"
  shows "\<exists>more. stdin (sendNextRequests fails s) = stdin s @ request item # more"
proof -
  obtain more where "stdin (sendNextRequests fails (sendRequest fails item (shifted s rest)))
      = stdin (sendRequest fails item (shifted s rest)) @ more"
    using sendNextRequests_stdin_prefix by blast
  with assms show ?thesis by (simp add: sendNextRequests_go sendRequest_stdin)
qed

lemma sendNextRequests_pending_subset:
  "pendingResponses (sendNextRequests fails s) \<subseteq> pendingResponses s \<union> set (queued s)"
proof (induction s rule: sendNextRequests_rounds[where fails = fails])
  case (stop s)
  then show ?case by (simp add: sendNextRequests_stop)
next
  case (go s item rest)
  have "pendingResponses (sendRequest fails item (shifted s rest)) \<subseteq> insert (seq (request item)) (pendingResponses s)"
    using sendRequest_pending_subset[of fails item "shifted s rest"] by (auto split: if_splits)
  with go show ?case by (auto simp: sendNextRequests_go queued_def)
qed

section \<open>Cancellation\<close>

lemma tryCancelRequest_alt:
  "tryCancelRequest sq s =
     (let (found, q) = tryCancelPendingRequest sq (requestQueue s);
          (result, s1) =
            (if found then (True, s\<lparr>requestQueue := q\<rparr>)
             else (case cancellationPipeName s of
                     Some name \<Rightarrow>
                       if name \<noteq> []
                       then (True, s\<lparr>pipeFiles := pipeFiles s @ [name @ string_of_nat sq]\<rparr>)
                       else (False, s)
                   | None \<Rightarrow> (False, s)))
      in (result, failCallback sq (cancelledRequest sq) s1))"
  by (simp add: tryCancelRequest_def failCallback_def Let_def case_prod_beta)

lemma splice_first_seqs:
  "map (\<lambda>item. seq (request item)) (snd (splice_first sq items)) =
     remove1 sq (map (\<lambda>item. seq (request item)) items)"
  by (induction items) (auto simp: Let_def split: prod.splits)

lemma splice_first_found:
  "fst (splice_first sq items) \<longleftrightarrow> sq \<in> (\<lambda>item. seq (request item)) ` set items"
  by (induction items) (auto simp: Let_def split: prod.splits)

lemma splice_first_absent:
  "sq \<notin> (\<lambda>item. seq (request item)) ` set items \<Longrightarrow> splice_first sq items = (False, items)"
  by (induction items) (auto simp: Let_def split: prod.splits)

lemma splice_first_not_found:
  "\<not> fst (splice_first sq items) \<Longrightarrow> snd (splice_first sq items) = items"
  by (induction items) (auto simp: Let_def split: prod.splits)

lemma splice_first_subset: "set (snd (splice_first sq items)) \<subseteq> set items"
  by (induction items) (auto simp: Let_def split: prod.splits)

lemma tryCancelPendingRequest_frame [simp]:
  "sequenceNumber (snd (tryCancelPendingRequest sq q)) = sequenceNumber q"
  "queue (snd (tryCancelPendingRequest sq q)) = snd (splice_first sq (queue q))"
  "fst (tryCancelPendingRequest sq q) = fst (splice_first sq (queue q))"
  by (simp_all add: tryCancelPendingRequest_def Let_def case_prod_beta)

lemma tryCancelRequest_frame [simp]:
  "stdin (snd (tryCancelRequest sq s)) = stdin s"
  "closures (snd (tryCancelRequest sq s)) = closures s"
  "cancellationPipeName (snd (tryCancelRequest sq s)) = cancellationPipeName s"
  "fired (snd (tryCancelRequest sq s)) = fired s"
  "telemetry (snd (tryCancelRequest sq s)) = telemetry s"
  "callbacks (snd (tryCancelRequest sq s)) = delete sq (callbacks s)"
  "sequenceNumber (requestQueue (snd (tryCancelRequest sq s))) = sequenceNumber (requestQueue s)"
  "queue (requestQueue (snd (tryCancelRequest sq s))) = snd (splice_first sq (queue (requestQueue s)))"
  by (simp_all add: tryCancelRequest_alt Let_def case_prod_beta splice_first_not_found
      split: option.splits)

lemma tryCancelRequest_pending:
  "pendingResponses (snd (tryCancelRequest sq s)) =
     (if registered sq s then pendingResponses s - {sq} else pendingResponses s)"
  by (auto simp: tryCancelRequest_alt Let_def case_prod_beta failCallback_pending registered_def
      split: option.splits)

lemma tryCancelRequest_invocations:
  "invocations (snd (tryCancelRequest sq s)) =
     (case fst (fetch sq (callbacks s)) of
        None \<Rightarrow> invocations s
      | Some cb \<Rightarrow> invocations s @ [OnError (promise cb) (cancelledRequest sq)])"
  by (simp add: tryCancelRequest_alt Let_def case_prod_beta failCallback_invocations
      split: option.splits)

section \<open>Evaluating the engine on concrete states\<close>

lemmas engine_simps =
  run_def executeImpl_def createRequest_def add_def push_def shift_def sendRequest_def
  writeRequest_def fetchCallback_def fetch_def delete_def new_server_def dispatchMessage_def
  dispatchResponse_def tryCancelRequest_def tryCancelPendingRequest_def onCancellationRequested_def
  handleExit_def handleError_def dispose_def destroy_def onError_def onSuccess_def resolve_def
  reject_def runMicrotasks_def catchHandler_def sendNextRequests.simps Let_def
  no_failure_def sync_info_def async_info_def registered_def queued_def resolutions_def

lemma one_in_flight_callback:
  "fst (fetch 0 (callbacks one_in_flight)) = Some \<lparr>promise = 0, startTime = 7, cb_isAsync = False\<rparr>"
  by (simp add: one_in_flight_def engine_simps)

lemma one_in_flight_pending: "pendingResponses one_in_flight = {0}"
  by (simp add: one_in_flight_def engine_simps)

lemma two_waiting_facts:
  "pendingResponses two_waiting = {0}"
  "registered 0 two_waiting"
  "0 \<notin> set (queued two_waiting)"
  "queue (requestQueue two_waiting) = second_item # [third_item]"
  "no_failure (request second_item) = None"
  "stdin two_waiting = [\<lparr>seq = 0, command = ''quickinfo'', arguments = ''a''\<rparr>]"
  by (simp_all add: two_waiting_def second_item_def third_item_def engine_simps)

lemma exit_scenario_facts:
  "map fst (m_callbacks (callbacks exit_scenario)) = [2, 3]"
  "map fst (m_asyncCallbacks (callbacks exit_scenario)) = [0]"
  "queued exit_scenario = [2, 3]"
  "map seq (stdin exit_scenario) = [0, 1]"
  "pendingResponses exit_scenario = {1}"
  "invocations exit_scenario = [OnSuccess 1 None]"
  "registered 2 exit_scenario"
  by (simp_all add: exit_scenario_def completed_event_def engine_simps)

lemma exit_scenario_after:
  "invocations (handleExit ''0'' exit_scenario) =
     [OnSuccess 1 None, OnError 2 (Error ''server exited''), OnError 3 (Error ''server exited''),
      OnError 0 (Error ''server exited'')]"
  "queued (handleExit ''0'' exit_scenario) = [2, 3]"
  by (simp_all add: exit_scenario_def completed_event_def engine_simps)

lemma write_failed_facts:
  "invocations write_failed = [OnError 0 (Thrown ''write EPIPE'')]"
  "microtasks write_failed = [(0, Thrown ''write EPIPE'')]"
  "closures write_failed 0 = Some \<lparr>cl_command = ''quickinfo'', cl_info = sync_info, wasCancelled = False\<rparr>"
  "telemetry write_failed = []"
  by (simp_all add: write_failed_def throwing_def engine_simps)

lemma failed_then_cancelled_facts:
  "invocations failed_then_cancelled = [OnError 0 (Thrown ''write EPIPE'')]"
  "microtasks failed_then_cancelled = [(0, Thrown ''write EPIPE'')]"
  "closures failed_then_cancelled 0 = Some \<lparr>cl_command = ''quickinfo'', cl_info = sync_info, wasCancelled = True\<rparr>"
  "telemetry failed_then_cancelled = []"
  by (simp_all add: failed_then_cancelled_def throwing_def engine_simps)

lemma cancelled_in_flight_facts:
  "invocations cancelled_in_flight = [OnError 0 (cancelledRequest 0)]"
  "microtasks cancelled_in_flight = [(0, cancelledRequest 0)]"
  "telemetry cancelled_in_flight = []"
  by (simp_all add: cancelled_in_flight_def engine_simps)

lemma new_server_idle:
  "run [] (new_server None) = new_server None"
  "pendingResponses (new_server None) = {}"
  "queue (requestQueue (new_server None)) = []"
  "sequenceNumber (requestQueue (new_server None)) = 0"
  by (simp_all add: run_def new_server_def)

lemma first_second_facts:
  "expectsResult sync_info" "\<not> info_isAsync sync_info"
  "no_failure \<lparr>seq = 0, command = ''quickinfo'', arguments = ''a''\<rparr> = None"
  by (simp_all add: engine_simps)

lemma busy_facts:
  "sequenceNumber (requestQueue (run busy_start (new_server None))) = 1"
  "registered 1 (run first_answered (run first_second (run busy_start (new_server None))))"
  "pendingResponses (run first_answered (run first_second (run busy_start (new_server None)))) = {1}"
  "queued (run first_answered (run first_second (run busy_start (new_server None)))) = [2]"
  "stdin (run first_answered (run first_second (run busy_start (new_server None)))) =
     [\<lparr>seq = 0, command = ''open'', arguments = ''x''\<rparr>,
      \<lparr>seq = 1, command = ''quickinfo'', arguments = ''a''\<rparr>]"
  "registered 1 (run later_on (run first_answered (run first_second (run busy_start (new_server None)))))"
  "request_seq (failure_of 1) = 1"
  "no_failure \<lparr>seq = Suc (Suc 0), command = ''completions'', arguments = ''b''\<rparr> = None"
  by (simp_all add: busy_start_def first_second_def first_answered_def later_on_def success_of_def
      failure_of_def engine_simps)

lemma early_facts:
  "registered 1 (run first_second (run busy_start (new_server None)))"
  "queued (run first_second (run busy_start (new_server None))) = [1, 2]"
  "map seq (stdin (run first_second (run busy_start (new_server None)))) = [0]"
  "pendingResponses (run first_second (run busy_start (new_server None))) = {0}"
  "resolutions 1 (run answered_early (run first_second (run busy_start (new_server None)))) = 1"
  "registered 1 (run answered_early (run first_second (run busy_start (new_server None)))) = False"
  "map seq (stdin (run answered_early (run first_second (run busy_start (new_server None))))) = [0]"
  "queued (run answered_early (run first_second (run busy_start (new_server None)))) = [1, 2]"
  "map seq (stdin (run first_answered (run answered_early (run first_second (run busy_start (new_server None)))))) = [0, 1]"
  "queued (run first_answered (run answered_early (run first_second (run busy_start (new_server None))))) = [2]"
  "pendingResponses (run first_answered (run answered_early (run first_second (run busy_start (new_server None))))) = {1}"
  "map seq (stdin (run answered_early (run first_answered (run answered_early (run first_second (run busy_start (new_server None))))))) = [0, 1]"
  "queued (run answered_early (run first_answered (run answered_early (run first_second (run busy_start (new_server None)))))) = [2]"
  by (simp_all add: busy_start_def first_second_def first_answered_def answered_early_def success_of_def
      engine_simps)

section \<open>Dispatching, submitting, microtasks\<close>

lemma dispatchMessage_alt:
  "snd (dispatchMessage fails msg s) = sendNextRequests fails (received msg s)"
  by (simp add: dispatchMessage_def received_def Let_def case_prod_beta fetch_def
      split: Message.splits option.splits)

lemma executeImpl_alt:
  "snd (executeImpl fails now cmd args executeInfo s) =
     sendNextRequests fails (submitted now cmd args executeInfo s)"
  by (simp add: executeImpl_def submitted_def createRequest_def push_def Let_def case_prod_beta)

lemma executeImpl_result:
  "fst (executeImpl fails now cmd args executeInfo s) =
     (if expectsResult executeInfo then Some (sequenceNumber (requestQueue s)) else None)"
  by (simp add: executeImpl_def createRequest_def Let_def case_prod_beta)

lemma dispatchResponse_alt:
  "dispatchResponse r s =
     (case fst (fetch (request_seq r) (callbacks s)) of
        None \<Rightarrow> s
      | Some cb \<Rightarrow>
          (if success r then onSuccess cb (Some r) else onError cb (ErrorResponse r))
            (s\<lparr>callbacks := delete (request_seq r) (callbacks s),
               pendingResponses := pendingResponses s - {request_seq r}\<rparr>))"
proof (cases "request_seq r" s rule: registered_cases)
  case absent
  then show ?thesis
    by (simp add: dispatchResponse_def fetchCallback_absent) (simp add: registered_def)
next
  case (present cb)
  then show ?thesis by (simp add: dispatchResponse_def fetchCallback_present)
qed

lemma dispatchResponse_frame [simp]:
  "requestQueue (dispatchResponse r s) = requestQueue s"
  "cancellationPipeName (dispatchResponse r s) = cancellationPipeName s"
  "stdin (dispatchResponse r s) = stdin s"
  "fired (dispatchResponse r s) = fired s"
  "pipeFiles (dispatchResponse r s) = pipeFiles s"
  "closures (dispatchResponse r s) = closures s"
  "telemetry (dispatchResponse r s) = telemetry s"
  by (simp_all add: dispatchResponse_alt split: option.splits)

lemma delete_unregistered: "\<not> registered sq s \<Longrightarrow> delete sq (callbacks s) = callbacks s"
  by (simp add: registered_map_of delete_def delete_absent)

lemma dispatchResponse_callbacks:
  "callbacks (dispatchResponse r s) = delete (request_seq r) (callbacks s)"
  by (cases "request_seq r" s rule: registered_cases)
     (simp_all add: dispatchResponse_def fetchCallback_absent fetchCallback_present
        delete_unregistered)

lemma dispatchResponse_pending:
  "pendingResponses (dispatchResponse r s) =
     (if registered (request_seq r) s then pendingResponses s - {request_seq r}
      else pendingResponses s)"
  by (auto simp: dispatchResponse_alt registered_def split: option.splits)

lemma received_frame [simp]:
  "requestQueue (received msg s) = requestQueue s"
  "cancellationPipeName (received msg s) = cancellationPipeName s"
  "stdin (received msg s) = stdin s"
  "pipeFiles (received msg s) = pipeFiles s"
  "closures (received msg s) = closures s"
  "telemetry (received msg s) = telemetry s"
  by (simp_all add: received_def split: Message.splits option.splits)

lemma received_pending_subset: "pendingResponses (received msg s) \<subseteq> pendingResponses s"
  by (auto simp: received_def dispatchResponse_pending split: Message.splits option.splits if_splits)

lemma submitted_frame [simp]:
  "cancellationPipeName (submitted now cmd args info s) = cancellationPipeName s"
  "stdin (submitted now cmd args info s) = stdin s"
  "pendingResponses (submitted now cmd args info s) = pendingResponses s"
  "invocations (submitted now cmd args info s) = invocations s"
  "fired (submitted now cmd args info s) = fired s"
  "pipeFiles (submitted now cmd args info s) = pipeFiles s"
  "microtasks (submitted now cmd args info s) = microtasks s"
  "telemetry (submitted now cmd args info s) = telemetry s"
  "sequenceNumber (requestQueue (submitted now cmd args info s)) = sequenceNumber (requestQueue s) + 1"
  "queue (requestQueue (submitted now cmd args info s)) =
     queue (requestQueue s) @
       [\<lparr>request = \<lparr>seq = sequenceNumber (requestQueue s), command = cmd, arguments = args\<rparr>,
         expectsResponse = expectsResult info, isAsync = info_isAsync info\<rparr>]"
  by (simp_all add: submitted_def Let_def)

lemma catchHandler_frame [simp]:
  "requestQueue (catchHandler job s) = requestQueue s"
  "callbacks (catchHandler job s) = callbacks s"
  "pendingResponses (catchHandler job s) = pendingResponses s"
  "cancellationPipeName (catchHandler job s) = cancellationPipeName s"
  "stdin (catchHandler job s) = stdin s"
  "invocations (catchHandler job s) = invocations s"
  "fired (catchHandler job s) = fired s"
  "pipeFiles (catchHandler job s) = pipeFiles s"
  "closures (catchHandler job s) = closures s"
  "settled (catchHandler job s) = settled s"
  "microtasks (catchHandler job s) = microtasks s"
  by (simp_all add: catchHandler_def split: option.splits)

lemma fold_catchHandler_frame [simp]:
  "requestQueue (fold catchHandler jobs s) = requestQueue s"
  "callbacks (fold catchHandler jobs s) = callbacks s"
  "pendingResponses (fold catchHandler jobs s) = pendingResponses s"
  "cancellationPipeName (fold catchHandler jobs s) = cancellationPipeName s"
  "stdin (fold catchHandler jobs s) = stdin s"
  "invocations (fold catchHandler jobs s) = invocations s"
  "fired (fold catchHandler jobs s) = fired s"
  "pipeFiles (fold catchHandler jobs s) = pipeFiles s"
  "closures (fold catchHandler jobs s) = closures s"
  "settled (fold catchHandler jobs s) = settled s"
  "microtasks (fold catchHandler jobs s) = microtasks s"
  by (induction jobs arbitrary: s; simp)+

lemma runMicrotasks_frame [simp]:
  "requestQueue (runMicrotasks s) = requestQueue s"
  "callbacks (runMicrotasks s) = callbacks s"
  "pendingResponses (runMicrotasks s) = pendingResponses s"
  "cancellationPipeName (runMicrotasks s) = cancellationPipeName s"
  "stdin (runMicrotasks s) = stdin s"
  "invocations (runMicrotasks s) = invocations s"
  "fired (runMicrotasks s) = fired s"
  "pipeFiles (runMicrotasks s) = pipeFiles s"
  "closures (runMicrotasks s) = closures s"
  "settled (runMicrotasks s) = settled s"
  "microtasks (runMicrotasks s) = []"
  by (simp_all add: runMicrotasks_def)

lemma onCancellationRequested_stdin [simp]:
  "stdin (onCancellationRequested p s) = stdin s"
  by (simp add: onCancellationRequested_def split: option.splits)

lemma step_stdin_unchanged: "\<not> drains op \<Longrightarrow> stdin (step op s) = stdin s"
  by (cases op) (simp_all add: handleExit_def handleError_def dispose_def)

lemma dispatch_sends_head:
  assumes "pendingResponses s = {}" and "queue (requestQueue s) = item # rest"
    and "fails (request item) = None"
  shows "\<exists>more. stdin (snd (dispatchMessage fails msg s)) = stdin s @ request item # more"
proof -
  have "pendingResponses (received msg s) = {}"
    using received_pending_subset[of msg s] assms(1) by simp
  moreover have "queue (requestQueue (received msg s)) = item # rest"
    using assms(2) by simp
  ultimately show ?thesis
    using sendNextRequests_head[of "received msg s" item rest fails] assms(3)
    by (simp add: dispatchMessage_alt)
qed

lemma execute_sends_head:
  assumes "pendingResponses s = {}" and "queue (requestQueue s) = item # rest"
    and "fails (request item) = None"
  shows "\<exists>more. stdin (snd (executeImpl fails now cmd args info s)) = stdin s @ request item # more"
  using sendNextRequests_head[of "submitted now cmd args info s" item _ fails] assms
  by (simp add: executeImpl_alt)

section \<open>Resolving one outcome keeps the invariants\<close>

lemma resolutions_append:
  "invocations t = invocations s @ is \<Longrightarrow>
   resolutions p t = resolutions p s + length (filter (\<lambda>i. invoked_promise i = p) is)"
  by (simp add: resolutions_def)

lemma resolves_inv_callbacks: "resolves sq s t \<Longrightarrow> inv_callbacks s \<Longrightarrow> inv_callbacks t"
  by (rule inv_callbacks_delete[of s t sq]) (simp_all add: resolves_def)

lemma resolves_inv_queue: "resolves sq s t \<Longrightarrow> inv_queue s \<Longrightarrow> inv_queue t"
  unfolding resolves_def inv_queue_def queued_def
  by (elim conjE, simp) (metis subset_empty subset_singletonD subsetD)

lemma resolves_inv_count:
  assumes "resolves sq s t" and "inv_callbacks s" and "inv_count s"
  shows "inv_count t"
proof -
  have r: "\<And>p. registered p t \<longleftrightarrow> registered p s \<and> p \<noteq> sq"
    using registered_after_delete[OF assms(2), of t sq] assms(1) by (simp add: resolves_def)
  have n: "\<And>p. resolutions p t = resolutions p s + (if p = sq \<and> registered sq s then 1 else 0)"
    using assms(1) by (simp add: resolves_def)
  have c: "closures t = closures s" "requestQueue t = requestQueue s"
    using assms(1) by (simp_all add: resolves_def)
  show ?thesis
    unfolding inv_count_def
  proof (intro conjI allI)
    fix p
    have "resolutions p s + (if registered p s then 1 else 0) = (if closures s p = None then 0 else 1)"
      using assms(3) by (simp add: inv_count_def)
    then show "resolutions p t + (if registered p t then 1 else 0) = (if closures t p = None then 0 else 1)"
      by (auto simp: r n c split: if_splits)
  next
    fix p
    show "closures t p \<noteq> None \<longrightarrow> p < sequenceNumber (requestQueue t)"
      using assms(3) by (simp add: inv_count_def c)
  qed
qed

lemma resolves_inv_kind: "resolves sq s t \<Longrightarrow> inv_kind s \<Longrightarrow> inv_kind t"
  unfolding resolves_def inv_kind_def by (elim conjE, simp) blast


lemma resolutions_onError [simp]:
  "resolutions p (onError cb e s) = resolutions p s + (if promise cb = p then 1 else 0)"
  by (simp add: resolutions_def)

lemma resolutions_onSuccess [simp]:
  "resolutions p (onSuccess cb v s) = resolutions p s + (if promise cb = p then 1 else 0)"
  by (simp add: resolutions_def)

lemma resolutions_cong:
  "invocations t = invocations s \<Longrightarrow> resolutions p t = resolutions p s"
  by (simp add: resolutions_def)

lemma registered_cong: "callbacks t = callbacks s \<Longrightarrow> registered p t = registered p s"
  by (simp add: registered_def)

lemma queued_cong: "requestQueue t = requestQueue s \<Longrightarrow> queued t = queued s"
  by (simp add: queued_def)

lemma resolves_failCallback:
  assumes "inv_callbacks s"
  shows "resolves sq s (failCallback sq e s)"
proof (cases sq s rule: registered_cases)
  case absent
  then show ?thesis
    by (simp add: resolves_def failCallback_absent delete_unregistered)
next
  case (present cb)
  moreover from fetch_Some_promise(1)[OF assms present] have "promise cb = sq" .
  moreover from present have "registered sq s" by (simp add: registered_def)
  ultimately show ?thesis
    by (auto simp: resolves_def failCallback_present resolutions_def)
qed

lemma resolves_dispatchResponse:
  assumes "inv_callbacks s"
  shows "resolves (request_seq r) s (dispatchResponse r s)"
proof (cases "request_seq r" s rule: registered_cases)
  case absent
  then show ?thesis
    by (simp add: resolves_def dispatchResponse_alt delete_unregistered) (simp add: registered_def)
next
  case (present cb)
  moreover from fetch_Some_promise(1)[OF assms present] have "promise cb = request_seq r" .
  moreover from present have "registered (request_seq r) s" by (simp add: registered_def)
  ultimately show ?thesis
    by (auto simp: resolves_def dispatchResponse_alt resolutions_def)
qed

lemma resolves_requestCompleted:
  assumes "inv_callbacks s" and "event ev = ''requestCompleted''"
  shows "resolves (body_request_seq ev) s (received (EventMsg ev) s)"
proof (cases "body_request_seq ev" s rule: registered_cases)
  case absent
  then have "fst (fetch (body_request_seq ev) (callbacks s)) = None"
    and "delete (body_request_seq ev) (callbacks s) = callbacks s"
    by (simp_all add: registered_def delete_unregistered)
  then show ?thesis using assms(2) absent
    by (simp add: resolves_def received_def resolutions_def)
next
  case (present cb)
  moreover from fetch_Some_promise(1)[OF assms(1) present] have "promise cb = body_request_seq ev" .
  moreover from present have "registered (body_request_seq ev) s" by (simp add: registered_def)
  ultimately show ?thesis using assms(2)
    by (auto simp: resolves_def received_def resolutions_def)
qed

lemma microtasks_onError:
  "set (microtasks (onError cb e s)) \<subseteq> insert (promise cb, e) (set (microtasks s))"
  by (auto simp: onError_def reject_def)

lemma microtasks_fold_onError:
  "set (microtasks (fold (\<lambda>cb. onError cb e) cbs s)) \<subseteq> (\<lambda>cb. (promise cb, e)) ` set cbs \<union> set (microtasks s)"
proof (induction cbs arbitrary: s)
  case Nil
  then show ?case by simp
next
  case (Cons cb cbs)
  show ?case
    using Cons.IH[of "onError cb e s"] microtasks_onError[of cb e s] by auto
qed

lemma microtasks_fetchCallback [simp]: "microtasks (snd (fetchCallback sq s)) = microtasks s"
  by simp

lemma microtasks_failCallback:
  "set (microtasks (failCallback sq e s)) \<subseteq>
     (case fst (fetch sq (callbacks s)) of None \<Rightarrow> {} | Some cb \<Rightarrow> {(promise cb, e)}) \<union> set (microtasks s)"
proof (cases sq s rule: registered_cases)
  case absent
  then show ?thesis by (simp add: failCallback_absent)
next
  case (present cb)
  then show ?thesis
    using microtasks_onError[of cb e "s\<lparr>callbacks := delete sq (callbacks s),
                     pendingResponses := pendingResponses s - {sq}\<rparr>"]
    by (auto simp: failCallback_present)
qed

lemma cancelledRequest_neq [simp]:
  "Thrown m \<noteq> cancelledRequest n" "ErrorResponse r \<noteq> cancelledRequest n"
  "Error ''server exited'' \<noteq> cancelledRequest n"
  "Error ''server errored'' \<noteq> cancelledRequest n"
  "Error ''server disposed'' \<noteq> cancelledRequest n"
  by (simp_all add: cancelledRequest_def)

text \<open>A failure that is no cancellation keeps the invariant of the scheduled handlers.\<close>

lemma inv_jobs_failCallback:
  assumes "inv_callbacks s" and "inv_jobs s"
    and "(\<exists>n. e = cancelledRequest n) \<longrightarrow> (\<exists>c. closures s sq = Some c \<and> wasCancelled c)"
  shows "inv_jobs (failCallback sq e s)"
  unfolding inv_jobs_def
proof (intro allI impI)
  fix p e'
  assume "(p, e') \<in> set (microtasks (failCallback sq e s))"
  with microtasks_failCallback[of sq e s]
  consider (old) "(p, e') \<in> set (microtasks s)"
    | (new) cb where "fst (fetch sq (callbacks s)) = Some cb" "p = promise cb" "e' = e"
    by (auto split: option.splits)
  then show "p < sequenceNumber (requestQueue (failCallback sq e s)) \<and>
        ((\<exists>n. e' = cancelledRequest n) \<longrightarrow> (\<exists>c. closures (failCallback sq e s) p = Some c \<and> wasCancelled c))"
  proof cases
    case old
    with assms(2) show ?thesis by (simp add: inv_jobs_def)
  next
    case new
    from fetch_Some_promise[OF assms(1) new(1)] new assms(3) show ?thesis by simp
  qed
qed

section \<open>The send loop keeps the invariants\<close>

lemma sendRequest_marked:
  "sendRequest fails item (shifted s rest) =
     (case fails (request item) of
        None \<Rightarrow> (marked item rest s)\<lparr>stdin := stdin s @ [request item]\<rparr>
      | Some m \<Rightarrow> failCallback (seq (request item)) (Thrown m) (marked item rest s))"
  by (simp add: sendRequest_alt marked_def Let_def split: option.splits)

lemma marked_frame [simp]:
  "callbacks (marked item rest s) = callbacks s"
  "closures (marked item rest s) = closures s"
  "invocations (marked item rest s) = invocations s"
  "microtasks (marked item rest s) = microtasks s"
  "sequenceNumber (requestQueue (marked item rest s)) = sequenceNumber (requestQueue s)"
  "queue (requestQueue (marked item rest s)) = rest"
  by (simp_all add: marked_def)

lemma marked_invariant:
  assumes "invariant s" and p: "pendingResponses s = {}" and q: "queue (requestQueue s) = item # rest"
  shows "invariant (marked item rest s)"
proof -
  let ?t = "marked item rest s"
  from assms(1) have ic: "inv_callbacks s" and iq: "inv_queue s" and in': "inv_count s"
    and ik: "inv_kind s" and ij: "inv_jobs s"
    by (simp_all add: invariant_def)
  have pt: "pendingResponses ?t = (if expectsResponse item \<and> \<not> isAsync item then {seq (request item)} else {})"
    by (simp add: marked_def p)
  have qs: "queued s = seq (request item) # queued ?t"
    by (simp add: queued_def q)
  have "inv_callbacks ?t"
    by (rule inv_callbacks_same[OF ic]) simp_all
  moreover have "inv_queue ?t"
    using iq unfolding inv_queue_def qs pt by auto
  moreover have "inv_count ?t"
    using in' unfolding inv_count_def
    by (simp add: resolutions_cong[of ?t s] registered_cong[of ?t s])
  moreover have "inv_kind ?t"
    using ik unfolding inv_kind_def pt by (auto simp: q)
  moreover have "inv_jobs ?t"
    using ij unfolding inv_jobs_def by simp
  ultimately show ?thesis by (simp add: invariant_def)
qed

lemma invariant_stdin:
  "invariant s \<Longrightarrow> invariant (s\<lparr>stdin := x\<rparr>)"
  by (simp add: invariant_def inv_callbacks_def inv_queue_def inv_count_def inv_kind_def
      inv_jobs_def queued_def registered_def resolutions_def)

lemma invariant_failCallback:
  assumes "invariant s"
    and "(\<exists>n. e = cancelledRequest n) \<longrightarrow> (\<exists>c. closures s sq = Some c \<and> wasCancelled c)"
  shows "invariant (failCallback sq e s)"
proof -
  from assms(1) have ic: "inv_callbacks s" by (simp add: invariant_def)
  note r = resolves_failCallback[OF ic, of sq e]
  from assms(1) show ?thesis
    unfolding invariant_def
    using resolves_inv_callbacks[OF r] resolves_inv_queue[OF r] resolves_inv_count[OF r]
      resolves_inv_kind[OF r] inv_jobs_failCallback[OF _ _ assms(2)]
    by blast
qed

lemma sendRequest_invariant:
  assumes "invariant s" and "pendingResponses s = {}" and "queue (requestQueue s) = item # rest"
  shows "invariant (sendRequest fails item (shifted s rest))"
  using marked_invariant[OF assms]
  by (simp add: sendRequest_marked invariant_stdin invariant_failCallback split: option.splits)

lemma sendNextRequests_invariant: "invariant s \<Longrightarrow> invariant (sendNextRequests fails s)"
  by (rule sendNextRequests_preserves[where I = invariant]) (simp_all add: sendRequest_invariant)

section \<open>Dispatching a message keeps the invariants\<close>

lemma invariant_fired:
  "invariant s \<Longrightarrow> invariant (s\<lparr>fired := x\<rparr>)"
  by (simp add: invariant_def inv_callbacks_def inv_queue_def inv_count_def inv_kind_def
      inv_jobs_def queued_def registered_def resolutions_def)

lemma invariant_pipeFiles:
  "invariant s \<Longrightarrow> invariant (s\<lparr>pipeFiles := x\<rparr>)"
  by (simp add: invariant_def inv_callbacks_def inv_queue_def inv_count_def inv_kind_def
      inv_jobs_def queued_def registered_def resolutions_def)

lemma invariant_resolves:
  assumes "invariant s" and r: "resolves sq s t" and j: "inv_jobs t"
  shows "invariant t"
  using assms(1) j resolves_inv_callbacks[OF r] resolves_inv_queue[OF r] resolves_inv_count[OF r]
    resolves_inv_kind[OF r]
  unfolding invariant_def by blast

lemma microtasks_dispatchResponse:
  "set (microtasks (dispatchResponse r s)) \<subseteq>
     (case fst (fetch (request_seq r) (callbacks s)) of
        None \<Rightarrow> {} | Some cb \<Rightarrow> {(promise cb, ErrorResponse r)}) \<union> set (microtasks s)"
proof (cases "fst (fetch (request_seq r) (callbacks s))")
  case None
  then show ?thesis by (simp add: dispatchResponse_alt)
next
  case (Some cb)
  then show ?thesis
    using microtasks_onError[of cb "ErrorResponse r" "s\<lparr>callbacks := delete (request_seq r) (callbacks s),
               pendingResponses := pendingResponses s - {request_seq r}\<rparr>"]
    by (auto simp: dispatchResponse_alt)
qed

lemma inv_jobs_dispatchResponse:
  assumes "inv_callbacks s" and "inv_jobs s"
  shows "inv_jobs (dispatchResponse r s)"
  unfolding inv_jobs_def
proof (intro allI impI)
  fix p e
  assume "(p, e) \<in> set (microtasks (dispatchResponse r s))"
  with microtasks_dispatchResponse[of r s]
  consider (old) "(p, e) \<in> set (microtasks s)"
    | (new) cb where "fst (fetch (request_seq r) (callbacks s)) = Some cb" "p = promise cb" "e = ErrorResponse r"
    by (auto split: option.splits)
  then show "p < sequenceNumber (requestQueue (dispatchResponse r s)) \<and>
        ((\<exists>n. e = cancelledRequest n) \<longrightarrow> (\<exists>c. closures (dispatchResponse r s) p = Some c \<and> wasCancelled c))"
  proof cases
    case old
    with assms(2) show ?thesis by (simp add: inv_jobs_def)
  next
    case new
    from fetch_Some_promise[OF assms(1) new(1)] new show ?thesis by simp
  qed
qed

lemma microtasks_received_event [simp]:
  "microtasks (received (EventMsg ev) s) = microtasks s"
  by (simp add: received_def split: option.splits)

lemma received_invariant:
  assumes "invariant s"
  shows "invariant (received msg s)"
proof -
  from assms have ic: "inv_callbacks s" and ij: "inv_jobs s" by (simp_all add: invariant_def)
  show ?thesis
  proof (cases msg)
    case (ResponseMsg r)
    have "invariant (dispatchResponse r s)"
      by (rule invariant_resolves[OF assms resolves_dispatchResponse[OF ic] inv_jobs_dispatchResponse[OF ic ij]])
    then show ?thesis by (simp add: ResponseMsg received_def)
  next
    case (EventMsg ev)
    show ?thesis
    proof (cases "event ev = ''requestCompleted''")
      case True
      have "inv_jobs (received (EventMsg ev) s)"
        using ij by (simp add: inv_jobs_def)
      from invariant_resolves[OF assms resolves_requestCompleted[OF ic True] this]
      show ?thesis by (simp add: EventMsg)
    next
      case False
      then show ?thesis using assms by (simp add: EventMsg received_def invariant_fired)
    qed
  next
    case (UnknownMsg t)
    then show ?thesis using assms by (simp add: received_def)
  qed
qed

lemma dispatchMessage_invariant:
  "invariant s \<Longrightarrow> invariant (snd (dispatchMessage fails msg s))"
  by (simp add: dispatchMessage_alt sendNextRequests_invariant received_invariant)

section \<open>Submitting a command keeps the invariants\<close>

lemma add_fresh:
  assumes "n \<notin> fst ` set (m_callbacks m)" and "n \<notin> fst ` set (m_asyncCallbacks m)"
  shows "m_callbacks (add n cb a m) = (if a then m_callbacks m else m_callbacks m @ [(n, cb)])"
    and "m_asyncCallbacks (add n cb a m) = (if a then m_asyncCallbacks m @ [(n, cb)] else m_asyncCallbacks m)"
  using assms by (simp_all add: add_def update_fresh)

lemma inv_callbacks_fresh:
  assumes "inv_callbacks s"
  shows "sequenceNumber (requestQueue s) \<notin> fst ` set (m_callbacks (callbacks s))"
    and "sequenceNumber (requestQueue s) \<notin> fst ` set (m_asyncCallbacks (callbacks s))"
  using assms unfolding inv_callbacks_def by fastforce+

lemma submitted_plain:
  "\<not> expectsResult info \<Longrightarrow>
   callbacks (submitted now cmd args info s) = callbacks s \<and>
   closures (submitted now cmd args info s) = closures s"
  by (simp add: submitted_def Let_def)

lemma submitted_promise:
  "expectsResult info \<Longrightarrow>
   callbacks (submitted now cmd args info s) =
     add (sequenceNumber (requestQueue s))
       \<lparr>promise = sequenceNumber (requestQueue s), startTime = now, cb_isAsync = info_isAsync info\<rparr>
       (info_isAsync info) (callbacks s) \<and>
   closures (submitted now cmd args info s) =
     (closures s)(sequenceNumber (requestQueue s) \<mapsto>
        \<lparr>cl_command = cmd, cl_info = info, wasCancelled = False\<rparr>)"
  by (simp add: submitted_def Let_def)

lemma submitted_registered:
  assumes "inv_callbacks s"
  shows "registered p (submitted now cmd args info s) \<longleftrightarrow>
           registered p s \<or> (expectsResult info \<and> p = sequenceNumber (requestQueue s))"
proof (cases "expectsResult info")
  case False
  then show ?thesis by (simp add: registered_keys submitted_plain)
next
  case True
  show ?thesis
    using inv_callbacks_fresh[OF assms] True
    by (auto simp: registered_keys submitted_promise add_fresh)
qed

lemma submitted_inv_callbacks:
  assumes "inv_callbacks s"
  shows "inv_callbacks (submitted now cmd args info s)"
proof (cases "expectsResult info")
  case False
  show ?thesis
    by (rule inv_callbacks_same[OF assms]) (simp_all add: submitted_plain[OF False])
next
  case True
  let ?n = "sequenceNumber (requestQueue s)"
  let ?t = "submitted now cmd args info s"
  let ?cb = "\<lparr>promise = ?n, startTime = now, cb_isAsync = info_isAsync info\<rparr>"
  let ?S = "m_callbacks (callbacks s)" and ?A = "m_asyncCallbacks (callbacks s)"
  note f = inv_callbacks_fresh[OF assms]
  from assms have d: "distinct (map fst ?S)" "distinct (map fst ?A)"
    and x: "fst ` set ?S \<inter> fst ` set ?A = {}"
    and b: "\<And>k cb. (k, cb) \<in> set ?S \<union> set ?A \<Longrightarrow> promise cb = k \<and> k < ?n"
    unfolding inv_callbacks_def by blast+
  have S: "m_callbacks (callbacks ?t) = (if info_isAsync info then ?S else ?S @ [(?n, ?cb)])"
    and A: "m_asyncCallbacks (callbacks ?t) = (if info_isAsync info then ?A @ [(?n, ?cb)] else ?A)"
    by (simp_all add: submitted_promise[OF True] add_fresh[OF f])
  have 1: "distinct (map fst (m_callbacks (callbacks ?t)))"
    using d(1) f(1) by (simp add: S)
  have 2: "distinct (map fst (m_asyncCallbacks (callbacks ?t)))"
    using d(2) f(2) by (simp add: A)
  have 3: "fst ` set (m_callbacks (callbacks ?t)) \<inter> fst ` set (m_asyncCallbacks (callbacks ?t)) = {}"
    using x f by (simp add: S A)
  have 4: "\<And>k cb. (k, cb) \<in> set (m_callbacks (callbacks ?t)) \<union> set (m_asyncCallbacks (callbacks ?t))
             \<Longrightarrow> promise cb = k \<and> k < sequenceNumber (requestQueue ?t)"
  proof -
    fix k cb
    assume "(k, cb) \<in> set (m_callbacks (callbacks ?t)) \<union> set (m_asyncCallbacks (callbacks ?t))"
    then consider "(k, cb) \<in> set ?S \<union> set ?A" | "k = ?n \<and> cb = ?cb"
      by (auto simp: S A split: if_splits)
    then show "promise cb = k \<and> k < sequenceNumber (requestQueue ?t)"
    proof cases
      case 1
      from b[OF this] show ?thesis by simp
    next
      case 2
      then show ?thesis by simp
    qed
  qed
  show ?thesis unfolding inv_callbacks_def using 1 2 3 4 by blast
qed

lemma submitted_queued [simp]:
  "queued (submitted now cmd args info s) = queued s @ [sequenceNumber (requestQueue s)]"
  by (simp add: queued_def)

lemma submitted_inv_queue:
  assumes "inv_queue s"
  shows "inv_queue (submitted now cmd args info s)"
  using assms unfolding inv_queue_def
  by (auto simp: less_Suc_eq)

lemma submitted_inv_count:
  assumes "inv_callbacks s" and "inv_count s"
  shows "inv_count (submitted now cmd args info s)"
proof -
  let ?n = "sequenceNumber (requestQueue s)"
  let ?t = "submitted now cmd args info s"
  have res: "\<And>p. resolutions p ?t = resolutions p s"
    by (rule resolutions_cong) simp
  from assms(2) have c: "\<And>p. resolutions p s + (if registered p s then 1 else 0) = (if closures s p = None then 0 else 1)"
    and b: "\<And>p. closures s p \<noteq> None \<Longrightarrow> p < ?n"
    unfolding inv_count_def by blast+
  have fresh: "closures s ?n = None"
  proof (rule ccontr)
    assume "closures s ?n \<noteq> None"
    from b[OF this] show False by simp
  qed
  show ?thesis
  proof (cases "expectsResult info")
    case False
    show ?thesis
      unfolding inv_count_def
    proof (intro conjI allI)
      fix p
      show "resolutions p ?t + (if registered p ?t then 1 else 0) = (if closures ?t p = None then 0 else 1)"
        using c[of p] False
        by (simp add: res submitted_registered[OF assms(1)] submitted_plain)
    next
      fix p
      show "closures ?t p \<noteq> None \<longrightarrow> p < sequenceNumber (requestQueue ?t)"
        using b[of p] False by (auto simp: submitted_plain less_Suc_eq)
    qed
  next
    case True
    show ?thesis
      unfolding inv_count_def
    proof (intro conjI allI)
      fix p
      show "resolutions p ?t + (if registered p ?t then 1 else 0) = (if closures ?t p = None then 0 else 1)"
        using c[of p] fresh True
        by (auto simp: res submitted_registered[OF assms(1)] submitted_promise split: if_splits)
    next
      fix p
      show "closures ?t p \<noteq> None \<longrightarrow> p < sequenceNumber (requestQueue ?t)"
        using b[of p] True by (auto simp: submitted_promise less_Suc_eq)
    qed
  qed
qed

lemma submitted_inv_kind:
  assumes "inv_queue s" and "inv_kind s"
  shows "inv_kind (submitted now cmd args info s)"
proof -
  let ?n = "sequenceNumber (requestQueue s)"
  let ?t = "submitted now cmd args info s"
  from assms(1) have q: "\<And>item. item \<in> set (queue (requestQueue s)) \<Longrightarrow> seq (request item) \<noteq> ?n"
    and p: "\<And>x. x \<in> pendingResponses s \<Longrightarrow> x \<noteq> ?n"
    unfolding inv_queue_def queued_def by fastforce+
  have keep: "\<And>k. k \<noteq> ?n \<Longrightarrow> closures ?t k = closures s k"
    by (simp add: submitted_def Let_def)
  show ?thesis
    unfolding inv_kind_def
  proof (intro conjI ballI impI)
    fix item
    assume i: "item \<in> set (queue (requestQueue ?t))" and e: "expectsResponse item"
    then consider (old) "item \<in> set (queue (requestQueue s))"
      | (new) "item = \<lparr>request = \<lparr>seq = ?n, command = cmd, arguments = args\<rparr>,
         expectsResponse = expectsResult info, isAsync = info_isAsync info\<rparr>"
      by auto
    then show "\<exists>c. closures ?t (seq (request item)) = Some c \<and> info_isAsync (cl_info c) = isAsync item"
    proof cases
      case old
      with assms(2) e q[OF old] show ?thesis by (auto simp: inv_kind_def keep)
    next
      case new
      with e show ?thesis by (simp add: submitted_promise)
    qed
  next
    fix x
    assume "x \<in> pendingResponses ?t"
    then have "x \<in> pendingResponses s" by simp
    with assms(2) p[OF this] show "\<exists>c. closures ?t x = Some c \<and> \<not> info_isAsync (cl_info c)"
      by (auto simp: inv_kind_def keep)
  qed
qed

lemma submitted_inv_jobs:
  assumes "inv_jobs s"
  shows "inv_jobs (submitted now cmd args info s)"
proof -
  let ?n = "sequenceNumber (requestQueue s)"
  have old: "\<And>k. k \<noteq> ?n \<Longrightarrow> closures (submitted now cmd args info s) k = closures s k"
    by (simp add: submitted_def Let_def)
  show ?thesis
    unfolding inv_jobs_def
  proof (intro allI impI)
    fix p e
    assume "(p, e) \<in> set (microtasks (submitted now cmd args info s))"
    then have m: "(p, e) \<in> set (microtasks s)" by simp
    with assms have "p < ?n" and "(\<exists>n. e = cancelledRequest n) \<longrightarrow> (\<exists>c. closures s p = Some c \<and> wasCancelled c)"
      unfolding inv_jobs_def by blast+
    then show "p < sequenceNumber (requestQueue (submitted now cmd args info s)) \<and>
       ((\<exists>n. e = cancelledRequest n) \<longrightarrow>
        (\<exists>c. closures (submitted now cmd args info s) p = Some c \<and> wasCancelled c))"
      by (simp add: old)
  qed
qed

lemma submitted_invariant: "invariant s \<Longrightarrow> invariant (submitted now cmd args info s)"
  by (simp add: invariant_def submitted_inv_callbacks submitted_inv_queue submitted_inv_count
      submitted_inv_kind submitted_inv_jobs)

lemma executeImpl_invariant:
  "invariant s \<Longrightarrow> invariant (snd (executeImpl fails now cmd args info s))"
  by (simp add: executeImpl_alt sendNextRequests_invariant submitted_invariant)

section \<open>Teardown and microtasks keep the invariants\<close>

lemma count_own_promise:
  assumes "distinct (map fst al)" and "\<And>k cb. (k, cb) \<in> set al \<Longrightarrow> promise cb = k"
  shows "length (filter (\<lambda>x. promise (snd x) = p) al) = (if p \<in> fst ` set al then 1 else 0)"
  using assms
proof (induction al)
  case Nil
  then show ?case by simp
next
  case (Cons a al)
  obtain k cb where a: "a = (k, cb)" by (cases a)
  from Cons.prems(2)[of k cb] have pk: "promise cb = k" by (simp add: a)
  from Cons.prems(1) have notin: "k \<notin> fst ` set al" and d: "distinct (map fst al)" by (simp_all add: a)
  have ih: "length (filter (\<lambda>x. promise (snd x) = p) al) = (if p \<in> fst ` set al then 1 else 0)"
    by (rule Cons.IH[OF d]) (simp add: Cons.prems(2))
  show ?case
  proof (cases "k = p")
    case True
    with notin ih show ?thesis by (simp add: a pk)
  next
    case False
    with ih show ?thesis by (simp add: a pk)
  qed
qed

lemma destroy_resolutions:
  assumes "inv_callbacks s"
  shows "resolutions p (destroy e s) = resolutions p s + (if registered p s then 1 else 0)"
proof -
  let ?S = "m_callbacks (callbacks s)" and ?A = "m_asyncCallbacks (callbacks s)"
  from assms have d: "distinct (map fst ?S)" "distinct (map fst ?A)"
    and x: "fst ` set ?S \<inter> fst ` set ?A = {}"
    and b: "\<And>k cb. (k, cb) \<in> set ?S \<Longrightarrow> promise cb = k" "\<And>k cb. (k, cb) \<in> set ?A \<Longrightarrow> promise cb = k"
    unfolding inv_callbacks_def by blast+
  have "resolutions p (destroy e s) = resolutions p s +
      (length (filter (\<lambda>x. promise (snd x) = p) ?S) + length (filter (\<lambda>x. promise (snd x) = p) ?A))"
    by (simp add: resolutions_def filter_map comp_def)
  also have "\<dots> = resolutions p s + ((if p \<in> fst ` set ?S then 1 else 0) + (if p \<in> fst ` set ?A then 1 else 0))"
    by (simp only: count_own_promise[OF d(1) b(1)] count_own_promise[OF d(2) b(2)])
  also have "\<dots> = resolutions p s + (if registered p s then 1 else 0)"
    using x by (auto simp: registered_keys)
  finally show ?thesis .
qed

lemma destroy_registered [simp]: "\<not> registered p (destroy e s)"
  by (simp add: registered_keys)

lemma destroy_microtasks:
  "set (microtasks (destroy e s)) \<subseteq>
     (\<lambda>x. (promise (snd x), e)) ` (set (m_callbacks (callbacks s)) \<union> set (m_asyncCallbacks (callbacks s)))
     \<union> set (microtasks s)"
proof -
  let ?S = "map snd (m_callbacks (callbacks s))" and ?A = "map snd (m_asyncCallbacks (callbacks s))"
  let ?s1 = "fold (\<lambda>cb. onError cb e) ?S s"
  let ?s2 = "?s1\<lparr>callbacks := (callbacks ?s1)\<lparr>m_callbacks := []\<rparr>\<rparr>"
  let ?s3 = "fold (\<lambda>cb. onError cb e) ?A ?s2"
  have 0: "microtasks (destroy e s) = microtasks ?s3"
    by (simp add: destroy_def Let_def)
  have 1: "set (microtasks ?s3) \<subseteq> (\<lambda>cb. (promise cb, e)) ` set ?A \<union> set (microtasks ?s2)"
    by (rule microtasks_fold_onError)
  have 2: "set (microtasks ?s2) \<subseteq> (\<lambda>cb. (promise cb, e)) ` set ?S \<union> set (microtasks s)"
    using microtasks_fold_onError[of e ?S s] by simp
  have 3: "(\<lambda>cb. (promise cb, e)) ` set ?A = (\<lambda>x. (promise (snd x), e)) ` set (m_asyncCallbacks (callbacks s))"
    "(\<lambda>cb. (promise cb, e)) ` set ?S = (\<lambda>x. (promise (snd x), e)) ` set (m_callbacks (callbacks s))"
    by (simp_all add: image_image)
  show ?thesis
    unfolding 0 image_Un using 1 2 unfolding 3 by blast
qed

lemma destroy_invariant:
  assumes "invariant s" and "\<And>n. e \<noteq> cancelledRequest n"
  shows "invariant (destroy e s)"
proof -
  from assms(1) have ic: "inv_callbacks s" and iq: "inv_queue s" and in': "inv_count s"
    and ik: "inv_kind s" and ij: "inv_jobs s"
    by (simp_all add: invariant_def)
  have "inv_callbacks (destroy e s)"
    by (simp add: inv_callbacks_def)
  moreover have "inv_queue (destroy e s)"
    using iq by (simp add: inv_queue_def queued_def)
  moreover have "inv_count (destroy e s)"
    using in' by (simp add: inv_count_def destroy_resolutions[OF ic])
  moreover have "inv_kind (destroy e s)"
    using ik by (simp add: inv_kind_def)
  moreover have "inv_jobs (destroy e s)"
    unfolding inv_jobs_def
  proof (intro allI impI)
    fix p e'
    assume "(p, e') \<in> set (microtasks (destroy e s))"
    with destroy_microtasks[of e s]
    consider (old) "(p, e') \<in> set (microtasks s)"
      | (new) k cb where "(k, cb) \<in> set (m_callbacks (callbacks s)) \<union> set (m_asyncCallbacks (callbacks s))"
          "p = promise cb" "e' = e"
      by fastforce
    then show "p < sequenceNumber (requestQueue (destroy e s)) \<and>
        ((\<exists>n. e' = cancelledRequest n) \<longrightarrow> (\<exists>c. closures (destroy e s) p = Some c \<and> wasCancelled c))"
    proof cases
      case old
      with ij show ?thesis by (simp add: inv_jobs_def)
    next
      case new
      from ic new(1) have "promise cb = k \<and> k < sequenceNumber (requestQueue s)"
        unfolding inv_callbacks_def by blast
      with new assms(2) show ?thesis by simp
    qed
  qed
  ultimately show ?thesis by (simp add: invariant_def)
qed

lemma invariant_pending_empty:
  "invariant s \<Longrightarrow> invariant (s\<lparr>pendingResponses := {}\<rparr>)"
  by (simp add: invariant_def inv_callbacks_def inv_queue_def inv_count_def inv_kind_def
      inv_jobs_def queued_def registered_def resolutions_def)

lemma handleExit_invariant: "invariant s \<Longrightarrow> invariant (handleExit code s)"
  by (simp add: handleExit_def destroy_invariant invariant_fired)

lemma handleError_invariant: "invariant s \<Longrightarrow> invariant (handleError e s)"
  by (simp add: handleError_def destroy_invariant invariant_fired)

lemma dispose_invariant: "invariant s \<Longrightarrow> invariant (dispose s)"
  by (simp add: dispose_def destroy_invariant invariant_pending_empty)

lemma runMicrotasks_invariant: "invariant s \<Longrightarrow> invariant (runMicrotasks s)"
  by (simp add: invariant_def inv_callbacks_def inv_queue_def inv_count_def inv_kind_def
      inv_jobs_def queued_def registered_def resolutions_def)

section \<open>Cancellation keeps the invariants; every reachable state has them\<close>

lemma tryCancelRequest_unqueued:
  "snd (tryCancelRequest sq s) = failCallback sq (cancelledRequest sq) (unqueued sq s)"
  by (simp add: tryCancelRequest_alt unqueued_def Let_def case_prod_beta split: option.splits)

lemma invariant_splice:
  assumes "invariant s"
  shows "invariant (s\<lparr>requestQueue := snd (tryCancelPendingRequest sq (requestQueue s))\<rparr>)"
proof -
  let ?t = "s\<lparr>requestQueue := snd (tryCancelPendingRequest sq (requestQueue s))\<rparr>"
  from assms have ic: "inv_callbacks s" and iq: "inv_queue s" and in': "inv_count s"
    and ik: "inv_kind s" and ij: "inv_jobs s"
    by (simp_all add: invariant_def)
  have qt: "queued ?t = remove1 sq (queued s)"
    by (simp add: queued_def splice_first_seqs)
  have sub: "set (queue (requestQueue ?t)) \<subseteq> set (queue (requestQueue s))"
    by (simp add: splice_first_subset)
  have "inv_callbacks ?t"
    by (rule inv_callbacks_same[OF ic]) simp_all
  moreover have "inv_queue ?t"
    using iq unfolding inv_queue_def qt
    by (auto dest: notin_set_remove1)
  moreover have "inv_count ?t"
    using in' unfolding inv_count_def
    by (simp add: resolutions_cong[of ?t s] registered_cong[of ?t s])
  moreover have "inv_kind ?t"
    using ik sub unfolding inv_kind_def by auto
  moreover have "inv_jobs ?t"
    using ij unfolding inv_jobs_def by simp
  ultimately show ?thesis by (simp add: invariant_def)
qed

lemma unqueued_invariant: "invariant s \<Longrightarrow> invariant (unqueued sq s)"
  by (simp add: unqueued_def invariant_splice invariant_pipeFiles split: option.splits)

lemma unqueued_closures [simp]: "closures (unqueued sq s) = closures s"
  by (simp add: unqueued_def split: option.splits)

lemma invariant_flag:
  assumes "invariant s" and "closures s p = Some c"
  shows "invariant (s\<lparr>closures := (closures s)(p \<mapsto> c\<lparr>wasCancelled := True\<rparr>)\<rparr>)"
proof -
  let ?t = "s\<lparr>closures := (closures s)(p \<mapsto> c\<lparr>wasCancelled := True\<rparr>)\<rparr>"
  from assms have ic: "inv_callbacks s" and iq: "inv_queue s" and in': "inv_count s"
    and ik: "inv_kind s" and ij: "inv_jobs s"
    by (simp_all add: invariant_def)
  have dom: "\<And>k. closures ?t k = None \<longleftrightarrow> closures s k = None"
    using assms(2) by simp
  have kind: "\<And>k c'. closures s k = Some c' \<Longrightarrow>
      \<exists>c''. closures ?t k = Some c'' \<and> cl_info c'' = cl_info c' \<and> (wasCancelled c' \<longrightarrow> wasCancelled c'')"
    using assms(2) by auto
  have "inv_callbacks ?t"
    by (rule inv_callbacks_same[OF ic]) simp_all
  moreover have "inv_queue ?t"
    using iq by (simp add: inv_queue_def queued_def)
  moreover have "inv_count ?t"
    using in' unfolding inv_count_def
    by (simp only: dom resolutions_cong[of ?t s, simplified] registered_cong[of ?t s, simplified]) simp
  moreover have "inv_kind ?t"
    unfolding inv_kind_def
  proof (intro conjI ballI impI)
    fix item
    assume "item \<in> set (queue (requestQueue ?t))" and "expectsResponse item"
    with ik obtain c' where "closures s (seq (request item)) = Some c'" "info_isAsync (cl_info c') = isAsync item"
      unfolding inv_kind_def by auto
    with kind[OF this(1)] show "\<exists>c. closures ?t (seq (request item)) = Some c \<and> info_isAsync (cl_info c) = isAsync item"
      by auto
  next
    fix x
    assume "x \<in> pendingResponses ?t"
    with ik obtain c' where "closures s x = Some c'" "\<not> info_isAsync (cl_info c')"
      unfolding inv_kind_def by auto
    with kind[OF this(1)] show "\<exists>c. closures ?t x = Some c \<and> \<not> info_isAsync (cl_info c)"
      by auto
  qed
  moreover have "inv_jobs ?t"
    unfolding inv_jobs_def
  proof (intro allI impI)
    fix q e
    assume "(q, e) \<in> set (microtasks ?t)"
    then have "(q, e) \<in> set (microtasks s)" by simp
    with ij have a: "q < sequenceNumber (requestQueue s)"
      and b: "(\<exists>n. e = cancelledRequest n) \<longrightarrow> (\<exists>c'. closures s q = Some c' \<and> wasCancelled c')"
      unfolding inv_jobs_def by blast+
    show "q < sequenceNumber (requestQueue ?t) \<and>
        ((\<exists>n. e = cancelledRequest n) \<longrightarrow> (\<exists>c'. closures ?t q = Some c' \<and> wasCancelled c'))"
    proof (intro conjI impI)
      show "q < sequenceNumber (requestQueue ?t)" using a by simp
    next
      assume "\<exists>n. e = cancelledRequest n"
      with b obtain c' where "closures s q = Some c'" "wasCancelled c'" by blast
      with kind[OF this(1)] show "\<exists>c'. closures ?t q = Some c' \<and> wasCancelled c'" by auto
    qed
  qed
  ultimately show ?thesis by (simp add: invariant_def)
qed

lemma onCancellationRequested_invariant:
  assumes "invariant s"
  shows "invariant (onCancellationRequested p s)"
proof (cases "closures s p")
  case None
  then show ?thesis using assms by (simp add: onCancellationRequested_def)
next
  case (Some c)
  show ?thesis
  proof (cases "token (cl_info c)")
    case False
    then show ?thesis using assms Some by (simp add: onCancellationRequested_def)
  next
    case True
    let ?t = "s\<lparr>closures := (closures s)(p \<mapsto> c\<lparr>wasCancelled := True\<rparr>)\<rparr>"
    have "invariant (unqueued p ?t)"
      by (rule unqueued_invariant[OF invariant_flag[OF assms Some]])
    moreover have "\<exists>c'. closures (unqueued p ?t) p = Some c' \<and> wasCancelled c'"
      by simp
    ultimately have "invariant (failCallback p (cancelledRequest p) (unqueued p ?t))"
      by (simp add: invariant_failCallback)
    then show ?thesis using Some True
      by (simp add: onCancellationRequested_def tryCancelRequest_unqueued)
  qed
qed

lemma step_invariant: "invariant s \<Longrightarrow> invariant (step op s)"
  by (cases op)
     (simp_all add: executeImpl_invariant dispatchMessage_invariant onCancellationRequested_invariant
        handleExit_invariant handleError_invariant dispose_invariant runMicrotasks_invariant)

lemma run_invariant: "invariant s \<Longrightarrow> invariant (run ops s)"
  unfolding run_def by (induction ops arbitrary: s) (simp_all add: step_invariant)

lemma new_server_invariant: "invariant (new_server pipeName)"
  by (simp add: invariant_def inv_callbacks_def inv_queue_def inv_count_def inv_kind_def
      inv_jobs_def queued_def registered_def resolutions_def new_server_def fetch_def)

lemma reachable_invariant: "invariant (run ops (new_server pipeName))"
  by (rule run_invariant[OF new_server_invariant])

lemma run_append: "run (ops @ ops') s = run ops' (run ops s)"
  by (simp add: run_def)

lemma run_snoc: "run (ops @ [op]) s = step op (run ops s)"
  by (simp add: run_def)

section \<open>Promises stay, and are counted\<close>

lemma closures_step: "closures s p \<noteq> None \<Longrightarrow> closures (step op s) p \<noteq> None"
proof (cases op)
  case (Execute fails now cmd args info)
  assume "closures s p \<noteq> None"
  then show ?thesis
    by (simp add: Execute executeImpl_alt submitted_def Let_def)
next
  case (Cancel q)
  assume "closures s p \<noteq> None"
  then show ?thesis
    by (simp add: Cancel onCancellationRequested_def split: option.splits)
qed (simp_all add: dispatchMessage_alt handleExit_def handleError_def dispose_def)

lemma closures_run: "closures s p \<noteq> None \<Longrightarrow> closures (run ops s) p \<noteq> None"
proof (induction ops arbitrary: s)
  case Nil
  then show ?case by (simp add: run_def)
next
  case (Cons op ops)
  from Cons.IH[OF closures_step[OF Cons.prems, of op]] show ?case by (simp add: run_def)
qed

lemma invariant_registered_closure:
  assumes "invariant s" and "registered p s"
  shows "closures s p \<noteq> None"
proof
  assume "closures s p = None"
  moreover from assms(1) have
    "resolutions p s + (if registered p s then 1 else 0) = (if closures s p = None then 0 else 1)"
    unfolding invariant_def inv_count_def by blast
  ultimately show False using assms(2) by simp
qed

lemma invariant_resolutions:
  assumes "invariant s" and "closures s p \<noteq> None"
  shows "resolutions p s = (if registered p s then 0 else 1)"
proof -
  from assms(1) have
    "resolutions p s + (if registered p s then 1 else 0) = (if closures s p = None then 0 else 1)"
    unfolding invariant_def inv_count_def by blast
  with assms(2) show ?thesis by (simp split: if_splits)
qed

lemma first_registered_fact: "registered 0 (run first_registered (new_server None))"
  by (simp add: first_registered_def engine_simps)

lemma invariant_pending_cases:
  assumes "invariant s" and "x \<in> pendingResponses s"
  shows "pendingResponses s = {x}" and "x \<notin> set (queued s)"
  using assms unfolding invariant_def inv_queue_def by auto

section \<open>Settled promises\<close>

lemma settled_onError [simp]: "settled (onError cb e s) = insert (promise cb) (settled s)"
  by (auto simp: onError_def reject_def)

lemma settled_onSuccess [simp]: "settled (onSuccess cb v s) = insert (promise cb) (settled s)"
  by (auto simp: onSuccess_def resolve_def)

lemma settled_fold_onError [simp]:
  "settled (fold (\<lambda>cb. onError cb e) cbs s) = promise ` set cbs \<union> settled s"
  by (induction cbs arbitrary: s) auto

lemma microtasks_onError_fresh:
  "promise cb \<notin> settled s \<Longrightarrow> microtasks (onError cb e s) = microtasks s @ [(promise cb, e)]"
  by (simp add: onError_def reject_def)

lemma inv_settled_resolves:
  assumes "inv_callbacks s" and "inv_settled s" and r: "resolves sq s t"
    and st: "settled t \<subseteq> (if registered sq s then insert sq (settled s) else settled s)"
  shows "inv_settled t"
  unfolding inv_settled_def
proof
  fix p
  assume p: "p \<in> settled t"
  have reg: "registered p t \<longleftrightarrow> registered p s \<and> p \<noteq> sq"
    using registered_after_delete[OF assms(1), of t sq] r by (simp add: resolves_def)
  have q: "requestQueue t = requestQueue s" using r by (simp add: resolves_def)
  from p st consider (old) "p \<in> settled s" | (new) "p = sq" "registered sq s"
    by (auto split: if_splits)
  then show "\<not> registered p t \<and> p < sequenceNumber (requestQueue t)"
  proof cases
    case old
    with assms(2) show ?thesis by (simp add: inv_settled_def reg q)
  next
    case new
    from new(2) obtain cb where "fst (fetch sq (callbacks s)) = Some cb"
      by (auto simp: registered_def)
    from fetch_Some_promise(2)[OF assms(1) this] new reg show ?thesis by (simp add: q)
  qed
qed

lemma inv_settled_same:
  assumes "inv_settled s" and "settled t = settled s" and "callbacks t = callbacks s"
    and "sequenceNumber (requestQueue t) = sequenceNumber (requestQueue s)"
  shows "inv_settled t"
  using assms(1) unfolding inv_settled_def assms(2) assms(4) registered_cong[OF assms(3)] .

lemma settled_failCallback:
  assumes "inv_callbacks s"
  shows "settled (failCallback sq e s) = (if registered sq s then insert sq (settled s) else settled s)"
proof (cases sq s rule: registered_cases)
  case absent
  then show ?thesis by (simp add: failCallback_absent)
next
  case (present cb)
  moreover from present have "registered sq s" by (simp add: registered_def)
  ultimately show ?thesis
    using fetch_Some_promise(1)[OF assms present] by (simp add: failCallback_present)
qed

lemma settled_dispatchResponse:
  assumes "inv_callbacks s"
  shows "settled (dispatchResponse r s) =
     (if registered (request_seq r) s then insert (request_seq r) (settled s) else settled s)"
proof (cases "request_seq r" s rule: registered_cases)
  case absent
  then show ?thesis by (simp add: dispatchResponse_alt registered_def)
next
  case (present cb)
  moreover from present have "registered (request_seq r) s" by (simp add: registered_def)
  ultimately show ?thesis
    using fetch_Some_promise(1)[OF assms present] by (simp add: dispatchResponse_alt)
qed

lemma settled_requestCompleted:
  assumes "inv_callbacks s" and "event ev = ''requestCompleted''"
  shows "settled (received (EventMsg ev) s) =
     (if registered (body_request_seq ev) s then insert (body_request_seq ev) (settled s) else settled s)"
proof (cases "body_request_seq ev" s rule: registered_cases)
  case absent
  then show ?thesis using assms(2) by (simp add: received_def registered_def)
next
  case (present cb)
  moreover from present have "registered (body_request_seq ev) s" by (simp add: registered_def)
  ultimately show ?thesis
    using fetch_Some_promise(1)[OF assms(1) present] assms(2) by (simp add: received_def)
qed

lemma sound_failCallback:
  assumes "sound s"
    and "(\<exists>n. e = cancelledRequest n) \<longrightarrow> (\<exists>c. closures s sq = Some c \<and> wasCancelled c)"
  shows "sound (failCallback sq e s)"
proof -
  from assms(1) have i: "invariant s" and ic: "inv_callbacks s" and ist: "inv_settled s"
    by (simp_all add: sound_def invariant_def)
  have "inv_settled (failCallback sq e s)"
    by (rule inv_settled_resolves[OF ic ist resolves_failCallback[OF ic]])
       (simp add: settled_failCallback[OF ic])
  with invariant_failCallback[OF i assms(2)] show ?thesis by (simp add: sound_def)
qed

lemma sound_marked:
  assumes "sound s" and "pendingResponses s = {}" and "queue (requestQueue s) = item # rest"
  shows "sound (marked item rest s)"
proof -
  have "inv_settled (marked item rest s)"
    by (rule inv_settled_same[of s]) (use assms(1) in \<open>simp_all add: sound_def marked_def\<close>)
  with marked_invariant[OF _ assms(2,3)] assms(1) show ?thesis by (simp add: sound_def)
qed

lemma sound_stdin: "sound s \<Longrightarrow> sound (s\<lparr>stdin := x\<rparr>)"
  by (simp add: sound_def invariant_stdin inv_settled_def registered_def)

lemma sound_sendRequest:
  assumes "sound s" and "pendingResponses s = {}" and "queue (requestQueue s) = item # rest"
  shows "sound (sendRequest fails item (shifted s rest))"
  using sound_marked[OF assms]
  by (simp add: sendRequest_marked sound_stdin sound_failCallback split: option.splits)

lemma sound_sendNextRequests: "sound s \<Longrightarrow> sound (sendNextRequests fails s)"
  by (rule sendNextRequests_preserves[where I = sound]) (simp_all add: sound_sendRequest)

lemma sound_received:
  assumes "sound s"
  shows "sound (received msg s)"
proof -
  from assms have i: "invariant s" and ic: "inv_callbacks s" and ist: "inv_settled s"
    by (simp_all add: sound_def invariant_def)
  have "inv_settled (received msg s)"
  proof (cases msg)
    case (ResponseMsg r)
    have "inv_settled (dispatchResponse r s)"
      by (rule inv_settled_resolves[OF ic ist resolves_dispatchResponse[OF ic]])
         (simp add: settled_dispatchResponse[OF ic])
    then show ?thesis by (simp add: ResponseMsg received_def)
  next
    case (EventMsg ev)
    show ?thesis
    proof (cases "event ev = ''requestCompleted''")
      case True
      have "inv_settled (received (EventMsg ev) s)"
        by (rule inv_settled_resolves[OF ic ist resolves_requestCompleted[OF ic True]])
           (simp add: settled_requestCompleted[OF ic True])
      then show ?thesis by (simp add: EventMsg)
    next
      case False
      then show ?thesis using ist
        by (simp add: EventMsg received_def inv_settled_def registered_def)
    qed
  next
    case (UnknownMsg t)
    then show ?thesis using ist by (simp add: received_def)
  qed
  with received_invariant[OF i] show ?thesis by (simp add: sound_def)
qed

lemma sound_submitted:
  assumes "sound s"
  shows "sound (submitted now cmd args info s)"
proof -
  from assms have i: "invariant s" and ic: "inv_callbacks s" and ist: "inv_settled s"
    by (simp_all add: sound_def invariant_def)
  have st: "settled (submitted now cmd args info s) = settled s"
    by (simp add: submitted_def Let_def)
  have "inv_settled (submitted now cmd args info s)"
    using ist unfolding inv_settled_def st
    by (auto simp: submitted_registered[OF ic])
  with submitted_invariant[OF i] show ?thesis by (simp add: sound_def)
qed

lemma sound_destroy:
  assumes "sound s" and "\<And>n. e \<noteq> cancelledRequest n"
  shows "sound (destroy e s)"
proof -
  from assms have i: "invariant s" and ic: "inv_callbacks s" and ist: "inv_settled s"
    by (simp_all add: sound_def invariant_def)
  have st: "settled (destroy e s) =
      promise ` snd ` (set (m_callbacks (callbacks s)) \<union> set (m_asyncCallbacks (callbacks s))) \<union> settled s"
    by (auto simp: destroy_def Let_def)
  have "inv_settled (destroy e s)"
    unfolding inv_settled_def
  proof
    fix p
    assume "p \<in> settled (destroy e s)"
    then consider (old) "p \<in> settled s"
      | (new) k cb where "(k, cb) \<in> set (m_callbacks (callbacks s)) \<union> set (m_asyncCallbacks (callbacks s))"
          "p = promise cb"
      unfolding st by fastforce
    then show "\<not> registered p (destroy e s) \<and> p < sequenceNumber (requestQueue (destroy e s))"
    proof cases
      case old
      with ist show ?thesis by (simp add: inv_settled_def)
    next
      case new
      from ic new(1) have "promise cb = k \<and> k < sequenceNumber (requestQueue s)"
        unfolding inv_callbacks_def by blast
      with new show ?thesis by simp
    qed
  qed
  with destroy_invariant[OF i assms(2)] show ?thesis by (simp add: sound_def)
qed

lemma sound_field:
  assumes "sound s"
  shows "sound (s\<lparr>fired := x\<rparr>)" and "sound (s\<lparr>pipeFiles := y\<rparr>)"
    and "sound (s\<lparr>pendingResponses := {}\<rparr>)"
  using assms
  by (simp_all add: sound_def invariant_fired invariant_pipeFiles invariant_pending_empty
      inv_settled_def registered_def)

lemma sound_unqueued: "sound s \<Longrightarrow> sound (unqueued sq s)"
  unfolding sound_def
  by (simp add: unqueued_invariant)
     (simp add: unqueued_def inv_settled_def registered_def split: option.splits)

lemma sound_flag:
  assumes "sound s" and "closures s p = Some c"
  shows "sound (s\<lparr>closures := (closures s)(p \<mapsto> c\<lparr>wasCancelled := True\<rparr>)\<rparr>)"
  using assms invariant_flag[of s p c]
  by (simp add: sound_def inv_settled_def registered_def)

lemma sound_onCancellationRequested:
  assumes "sound s"
  shows "sound (onCancellationRequested p s)"
proof (cases "closures s p")
  case None
  then show ?thesis using assms by (simp add: onCancellationRequested_def)
next
  case (Some c)
  show ?thesis
  proof (cases "token (cl_info c)")
    case False
    then show ?thesis using assms Some by (simp add: onCancellationRequested_def)
  next
    case True
    let ?t = "s\<lparr>closures := (closures s)(p \<mapsto> c\<lparr>wasCancelled := True\<rparr>)\<rparr>"
    have "sound (unqueued p ?t)"
      by (rule sound_unqueued[OF sound_flag[OF assms Some]])
    moreover have "\<exists>c'. closures (unqueued p ?t) p = Some c' \<and> wasCancelled c'"
      by simp
    ultimately have "sound (failCallback p (cancelledRequest p) (unqueued p ?t))"
      by (simp add: sound_failCallback)
    then show ?thesis using Some True
      by (simp add: onCancellationRequested_def tryCancelRequest_unqueued)
  qed
qed

lemma sound_runMicrotasks: "sound s \<Longrightarrow> sound (runMicrotasks s)"
  by (simp add: sound_def runMicrotasks_invariant inv_settled_def registered_def)

lemma sound_step: "sound s \<Longrightarrow> sound (step op s)"
  by (cases op)
     (simp_all add: executeImpl_alt dispatchMessage_alt sound_sendNextRequests sound_submitted
        sound_received sound_onCancellationRequested handleExit_def handleError_def dispose_def
        sound_destroy sound_field sound_runMicrotasks)

lemma sound_run: "sound s \<Longrightarrow> sound (run ops s)"
  unfolding run_def by (induction ops arbitrary: s) (simp_all add: sound_step)

lemma sound_new_server: "sound (new_server pipeName)"
  by (simp add: sound_def new_server_invariant) (simp add: inv_settled_def new_server_def)

lemma reachable_sound: "sound (run ops (new_server pipeName))"
  by (rule sound_run[OF sound_new_server])

section \<open>Rejection handlers and telemetry\<close>

lemma catchHandler_telemetry: "telemetry (catchHandler job s) = telemetry s @ report s job"
  by (simp add: catchHandler_def report_def split: option.splits)

lemma report_catchHandler [simp]: "report (catchHandler job s) = report s"
  by (rule ext) (simp add: report_def)

lemma fold_catchHandler_telemetry:
  "telemetry (fold catchHandler jobs s) = telemetry s @ concat (map (report s) jobs)"
proof (induction jobs arbitrary: s)
  case Nil
  then show ?case by simp
next
  case (Cons job jobs)
  show ?case by (simp add: Cons.IH catchHandler_telemetry)
qed

lemma report_microtasks [simp]: "report (s\<lparr>microtasks := x\<rparr>) = report s"
  by (rule ext) (simp add: report_def)

lemma runMicrotasks_telemetry:
  "telemetry (runMicrotasks s) = telemetry s @ concat (map (report s) (microtasks s))"
  by (simp add: runMicrotasks_def fold_catchHandler_telemetry)

lemma sound_unsettled:
  assumes "sound s" and "registered p s"
  shows "p \<notin> settled s"
  using assms unfolding sound_def inv_settled_def by blast

lemma microtasks_failCallback_registered:
  assumes "inv_callbacks s" and "registered p s" and "p \<notin> settled s"
  shows "microtasks (failCallback p e s) = microtasks s @ [(p, e)]"
proof -
  from assms(2) obtain cb where f: "fst (fetch p (callbacks s)) = Some cb"
    by (auto simp: registered_def)
  from fetch_Some_promise(1)[OF assms(1) f] assms(3) show ?thesis
    by (simp add: failCallback_present[OF f] microtasks_onError_fresh)
qed

lemma microtasks_fold_mono:
  "set (microtasks s) \<subseteq> set (microtasks (fold (\<lambda>cb. onError cb e) cbs s))"
proof (induction cbs arbitrary: s)
  case Nil
  then show ?case by simp
next
  case (Cons cb cbs)
  have "set (microtasks s) \<subseteq> set (microtasks (onError cb e s))"
    by (auto simp: onError_def reject_def)
  with Cons.IH[of "onError cb e s"] show ?case by auto
qed

lemma microtasks_fold_member:
  assumes "cb \<in> set cbs" and "promise cb \<notin> settled s"
  shows "(promise cb, e) \<in> set (microtasks (fold (\<lambda>cb. onError cb e) cbs s))"
  using assms
proof (induction cbs arbitrary: s)
  case Nil
  then show ?case by simp
next
  case (Cons x xs)
  show ?case
  proof (cases "promise x = promise cb")
    case True
    with Cons.prems(2) have "(promise cb, e) \<in> set (microtasks (onError x e s))"
      by (simp add: microtasks_onError_fresh)
    with microtasks_fold_mono[of "onError x e s" e xs] show ?thesis by auto
  next
    case False
    with Cons.prems have "cb \<in> set xs" and "promise cb \<notin> settled (onError x e s)" by auto
    from Cons.IH[OF this] show ?thesis by simp
  qed
qed

lemma fold_onError_callbacks:
  "fold (\<lambda>cb. onError cb e) cbs (s\<lparr>callbacks := x\<rparr>) = (fold (\<lambda>cb. onError cb e) cbs s)\<lparr>callbacks := x\<rparr>"
proof (induction cbs arbitrary: s)
  case Nil
  then show ?case by simp
next
  case (Cons cb cbs)
  have "onError cb e (s\<lparr>callbacks := x\<rparr>) = (onError cb e s)\<lparr>callbacks := x\<rparr>"
    by (simp add: onError_def reject_def)
  then show ?case by (simp add: Cons.IH)
qed

lemma destroy_microtasks_all:
  "microtasks (destroy e s) =
     microtasks (fold (\<lambda>cb. onError cb e)
       (map snd (m_callbacks (callbacks s)) @ map snd (m_asyncCallbacks (callbacks s))) s)"
  by (simp add: destroy_def Let_def fold_onError_callbacks)

lemma destroy_schedules:
  assumes "inv_callbacks s" and "registered p s" and "p \<notin> settled s"
  shows "(p, e) \<in> set (microtasks (destroy e s))"
proof -
  from assms(2) obtain cb where f: "fst (fetch p (callbacks s)) = Some cb"
    by (auto simp: registered_def)
  then have "(p, cb) \<in> set (m_callbacks (callbacks s)) \<union> set (m_asyncCallbacks (callbacks s))"
    by (auto simp: fetch_def Let_def split: option.splits dest: map_of_SomeD)
  then have "cb \<in> set (map snd (m_callbacks (callbacks s)) @ map snd (m_asyncCallbacks (callbacks s)))"
    by force
  moreover have "promise cb \<notin> settled s"
    using fetch_Some_promise(1)[OF assms(1) f] assms(3) by simp
  ultimately have "(promise cb, e) \<in> set (microtasks (destroy e s))"
    unfolding destroy_microtasks_all by (rule microtasks_fold_member)
  with fetch_Some_promise(1)[OF assms(1) f] show ?thesis by simp
qed


lemma flag_step:
  assumes "invariant s" and "closures s p = Some c" and "\<not> wasCancelled c" and "op \<noteq> Cancel p"
  shows "\<exists>c'. closures (step op s) p = Some c' \<and> \<not> wasCancelled c'"
proof (cases op)
  case (Execute fails now cmd args info)
  from assms(1,2) have "p < sequenceNumber (requestQueue s)"
    unfolding invariant_def inv_count_def by auto
  with assms(2,3) show ?thesis
    by (simp add: Execute executeImpl_alt submitted_def Let_def)
next
  case (Cancel q)
  with assms(4) have "q \<noteq> p" by simp
  with assms(2,3) show ?thesis
    by (simp add: Cancel onCancellationRequested_def split: option.splits)
qed (use assms(2,3) in \<open>simp_all add: dispatchMessage_alt handleExit_def handleError_def dispose_def\<close>)

section \<open>While a synchronous request is unresolved, nothing is sent\<close>

lemma registered_delete_subset:
  "callbacks t = delete sq (callbacks s) \<Longrightarrow> registered p t \<Longrightarrow> registered p s"
  by (auto simp: registered_keys delete_sync delete_async keys_delete split: if_splits)

lemma registered_sendRequest:
  "registered p (sendRequest fails item s) \<Longrightarrow> registered p s"
proof (cases "fails (request item)")
  case None
  assume "registered p (sendRequest fails item s)"
  with None show ?thesis
    by (simp add: sendRequest_alt Let_def registered_def split: if_splits)
next
  case (Some m)
  assume r: "registered p (sendRequest fails item s)"
  let ?t = "if expectsResponse item \<and> \<not> isAsync item
            then s\<lparr>pendingResponses := insert (seq (request item)) (pendingResponses s)\<rparr> else s"
  have c: "callbacks (sendRequest fails item s) = delete (seq (request item)) (callbacks ?t)"
    using Some by (simp add: sendRequest_alt Let_def)
  have "registered p ?t" by (rule registered_delete_subset[OF c r])
  then show ?thesis by (simp add: registered_def split: if_splits)
qed

lemma registered_sendNextRequests:
  "registered p (sendNextRequests fails s) \<Longrightarrow> registered p s"
proof -
  have "registered p (sendNextRequests fails s) \<longrightarrow> registered p s"
  proof (rule sendNextRequests_preserves[where I = "\<lambda>t. registered p t \<longrightarrow> registered p s"])
    show "registered p s \<longrightarrow> registered p s" by simp
  next
    fix t item rest
    assume i: "registered p t \<longrightarrow> registered p s"
    show "registered p (sendRequest fails item (shifted t rest)) \<longrightarrow> registered p s"
    proof
      assume "registered p (sendRequest fails item (shifted t rest))"
      then have "registered p (shifted t rest)" by (rule registered_sendRequest)
      then have "registered p t" by (simp add: registered_def)
      with i show "registered p s" by simp
    qed
  qed
  then show "registered p (sendNextRequests fails s) \<Longrightarrow> registered p s" by simp
qed

lemma registered_received: "registered p (received msg s) \<Longrightarrow> registered p s"
proof (cases msg)
  case (ResponseMsg r)
  assume "registered p (received msg s)"
  then show ?thesis
    using registered_delete_subset[of "dispatchResponse r s" "request_seq r" s p]
    by (simp add: ResponseMsg received_def dispatchResponse_callbacks)
next
  case (EventMsg ev)
  assume r: "registered p (received msg s)"
  show ?thesis
  proof (cases "event ev = ''requestCompleted''")
    case True
    have "callbacks (received (EventMsg ev) s) = delete (body_request_seq ev) (callbacks s)"
      using True by (simp add: received_def split: option.splits)
    from registered_delete_subset[OF this] r show ?thesis by (simp add: EventMsg)
  next
    case False
    with r show ?thesis by (simp add: EventMsg received_def registered_def)
  qed
next
  case (UnknownMsg t)
  assume "registered p (received msg s)"
  then show ?thesis by (simp add: UnknownMsg received_def)
qed

lemma registered_onCancellationRequested:
  "registered p (onCancellationRequested q s) \<Longrightarrow> registered p s"
proof (cases "closures s q")
  case None
  assume "registered p (onCancellationRequested q s)"
  with None show ?thesis by (simp add: onCancellationRequested_def)
next
  case (Some c)
  assume r: "registered p (onCancellationRequested q s)"
  show ?thesis
  proof (cases "token (cl_info c)")
    case False
    with r Some show ?thesis by (simp add: onCancellationRequested_def)
  next
    case True
    let ?t = "s\<lparr>closures := (closures s)(q \<mapsto> c\<lparr>wasCancelled := True\<rparr>)\<rparr>"
    have "callbacks (onCancellationRequested q s) = delete q (callbacks ?t)"
      using Some True by (simp add: onCancellationRequested_def)
    from registered_delete_subset[OF this r] show ?thesis by (simp add: registered_def)
  qed
qed

lemma registered_step:
  assumes "inv_callbacks s" and "registered p (step op s)"
  shows "registered p s \<or> p = sequenceNumber (requestQueue s)"
proof (cases op)
  case (Execute fails now cmd args info)
  with assms(2) have "registered p (submitted now cmd args info s)"
    by (simp add: executeImpl_alt registered_sendNextRequests)
  then show ?thesis by (auto simp: submitted_registered[OF assms(1)])
next
  case (Dispatch fails msg)
  with assms(2) have "registered p (received msg s)"
    by (simp add: dispatchMessage_alt registered_sendNextRequests)
  then show ?thesis by (simp add: registered_received)
next
  case (Cancel q)
  with assms(2) show ?thesis by (simp add: registered_onCancellationRequested)
next
  case (WorkerExit code)
  with assms(2) show ?thesis by (simp add: handleExit_def)
next
  case (WorkerError e)
  with assms(2) show ?thesis by (simp add: handleError_def)
next
  case Dispose
  with assms(2) show ?thesis by (simp add: dispose_def registered_keys)
next
  case Microtasks
  with assms(2) show ?thesis by (simp add: registered_def)
qed

lemma sequenceNumber_step:
  "sequenceNumber (requestQueue s) \<le> sequenceNumber (requestQueue (step op s))"
  by (cases op)
     (simp_all add: executeImpl_alt dispatchMessage_alt onCancellationRequested_def
        handleExit_def handleError_def dispose_def split: option.splits)

lemma unregistered_run:
  assumes "invariant s" and "a < sequenceNumber (requestQueue s)" and "\<not> registered a s"
  shows "\<not> registered a (run ops s)"
  using assms
proof (induction ops arbitrary: s)
  case Nil
  then show ?case by (simp add: run_def)
next
  case (Cons op ops)
  from Cons.prems(1) have ic: "inv_callbacks s" by (simp add: invariant_def)
  have "\<not> registered a (step op s)"
    using registered_step[OF ic, of a op] Cons.prems(2,3) by auto
  moreover have "a < sequenceNumber (requestQueue (step op s))"
    using sequenceNumber_step[of s op] Cons.prems(2) by simp
  ultimately have "\<not> registered a (run ops (step op s))"
    using Cons.IH[OF step_invariant[OF Cons.prems(1)]] by simp
  then show ?case by (simp add: run_def)
qed


lemma held_same:
  assumes "held a itemB X s" and "callbacks t = callbacks s" and "pendingResponses t = pendingResponses s"
    and "stdin t = stdin s" and "requestQueue t = requestQueue s"
  shows "held a itemB X t"
  using assms by (simp add: held_def registered_def queued_def)

lemma held_stops:
  assumes "held a itemB X s"
  shows "sendNextRequests fails s = s"
proof -
  from assms have "pendingResponses s \<noteq> {}" by (auto simp: held_def)
  then show ?thesis by (simp add: sendNextRequests_stop)
qed

lemma held_submitted:
  assumes "inv_callbacks s" and "held a itemB X s"
  shows "held a itemB X (submitted now cmd args info s)"
proof -
  let ?t = "submitted now cmd args info s"
  from assms(2) have r: "registered a s" and p: "a \<in> pendingResponses s" and x: "stdin s = X"
    and n: "a < sequenceNumber (requestQueue s)" "seq (request itemB) < sequenceNumber (requestQueue s)"
    and h: "seq (request itemB) \<in> set (queued s) \<Longrightarrow> \<exists>rest. queue (requestQueue s) = itemB # rest"
    by (simp_all add: held_def)
  have "seq (request itemB) \<in> set (queued ?t) \<longrightarrow> (\<exists>rest. queue (requestQueue ?t) = itemB # rest)"
  proof
    assume "seq (request itemB) \<in> set (queued ?t)"
    with n(2) have "seq (request itemB) \<in> set (queued s)" by simp
    from h[OF this] obtain rest where "queue (requestQueue s) = itemB # rest" by blast
    then show "\<exists>rest. queue (requestQueue ?t) = itemB # rest" by simp
  qed
  with r p x n show ?thesis
    by (simp add: held_def submitted_registered[OF assms(1)])
qed

lemma held_resolves:
  assumes "inv_callbacks s" and "held a itemB X s" and "registered a t"
    and c: "callbacks t = delete sq (callbacks s)"
    and p: "pendingResponses s - {sq} \<subseteq> pendingResponses t"
    and "stdin t = stdin s" and q: "requestQueue t = requestQueue s"
  shows "held a itemB X t"
proof -
  from registered_after_delete[OF assms(1) c, of a] assms(3) have "a \<noteq> sq" by simp
  with assms(2) p have "a \<in> pendingResponses t" by (auto simp: held_def)
  with assms(2,3,6) q show ?thesis by (simp add: held_def queued_def)
qed

lemma held_received:
  assumes "inv_callbacks s" and "held a itemB X s" and "registered a (received msg s)"
  shows "held a itemB X (received msg s)"
proof (cases msg)
  case (ResponseMsg r)
  have "held a itemB X (dispatchResponse r s)"
  proof (rule held_resolves[OF assms(1,2), where sq = "request_seq r"])
    show "registered a (dispatchResponse r s)"
      using assms(3) by (simp add: ResponseMsg received_def)
  qed (auto simp: dispatchResponse_callbacks dispatchResponse_pending)
  then show ?thesis by (simp add: ResponseMsg received_def)
next
  case (EventMsg ev)
  show ?thesis
  proof (cases "event ev = ''requestCompleted''")
    case True
    have "held a itemB X (received (EventMsg ev) s)"
    proof (rule held_resolves[OF assms(1,2), where sq = "body_request_seq ev"])
      show "registered a (received (EventMsg ev) s)"
        using assms(3) by (simp add: EventMsg)
    qed (use True in \<open>auto simp: received_def split: option.splits\<close>)
    then show ?thesis by (simp add: EventMsg)
  next
    case False
    have "held a itemB X (received (EventMsg ev) s)"
      by (rule held_same[OF assms(2)]) (use False in \<open>simp_all add: received_def\<close>)
    then show ?thesis by (simp add: EventMsg)
  qed
next
  case (UnknownMsg t)
  with assms(2) show ?thesis by (simp add: received_def)
qed

lemma splice_first_keeps_head:
  "seq (request item) \<noteq> sq \<Longrightarrow> snd (splice_first sq (item # rest)) = item # snd (splice_first sq rest)"
  by (simp add: Let_def case_prod_beta)

lemma held_cancel:
  assumes "invariant s" and "held a itemB X s" and "registered a (onCancellationRequested q s)"
  shows "held a itemB X (onCancellationRequested q s)"
proof (cases "closures s q")
  case None
  with assms(2) show ?thesis by (simp add: onCancellationRequested_def)
next
  case (Some c)
  show ?thesis
  proof (cases "token (cl_info c)")
    case False
    with assms(2) Some show ?thesis by (simp add: onCancellationRequested_def)
  next
    case True
    let ?f = "s\<lparr>closures := (closures s)(q \<mapsto> c\<lparr>wasCancelled := True\<rparr>)\<rparr>"
    let ?t = "snd (tryCancelRequest q ?f)"
    have t: "onCancellationRequested q s = ?t"
      using Some True by (simp add: onCancellationRequested_def)
    from assms(1) have ic: "inv_callbacks s" and iq: "inv_queue s" by (simp_all add: invariant_def)
    have icf: "inv_callbacks ?f" by (rule inv_callbacks_same[OF ic]) simp_all
    have rf: "registered a ?f = registered a s" by (simp add: registered_def)
    from assms(2) have r: "registered a s" and p: "a \<in> pendingResponses s" and x: "stdin s = X"
      and n: "a < sequenceNumber (requestQueue s)" "seq (request itemB) < sequenceNumber (requestQueue s)"
      and h: "seq (request itemB) \<in> set (queued s) \<Longrightarrow> \<exists>rest. queue (requestQueue s) = itemB # rest"
      by (simp_all add: held_def)
    have "registered a ?t" using assms(3) by (simp add: t)
    with registered_after_delete[OF icf, of ?t q a] have ne: "a \<noteq> q" by simp
    have pt: "a \<in> pendingResponses ?t"
      using p ne by (simp add: tryCancelRequest_pending)
    have qt: "queued ?t = remove1 q (queued s)"
      by (simp add: queued_def splice_first_seqs)
    have "seq (request itemB) \<in> set (queued ?t) \<longrightarrow> (\<exists>rest. queue (requestQueue ?t) = itemB # rest)"
    proof
      assume m: "seq (request itemB) \<in> set (queued ?t)"
      from iq have d: "distinct (queued s)" by (simp add: inv_queue_def)
      from m d have nb: "seq (request itemB) \<noteq> q" and "seq (request itemB) \<in> set (queued s)"
        unfolding qt by auto
      from h[OF this(2)] obtain rest where "queue (requestQueue s) = itemB # rest" by blast
      then have "queue (requestQueue ?f) = itemB # rest" by simp
      then have "queue (requestQueue ?t) = snd (splice_first q (itemB # rest))"
        by (simp only: tryCancelRequest_frame)
      then have "queue (requestQueue ?t) = itemB # snd (splice_first q rest)"
        unfolding splice_first_keeps_head[OF nb, of rest] .
      then show "\<exists>rest. queue (requestQueue ?t) = itemB # rest" by blast
    qed
    with \<open>registered a ?t\<close> pt x n show ?thesis
      unfolding t by (simp add: held_def)
  qed
qed

lemma held_step:
  assumes "invariant s" and "held a itemB X s" and "registered a (step op s)"
  shows "held a itemB X (step op s)"
proof -
  from assms(1) have ic: "inv_callbacks s" by (simp add: invariant_def)
  show ?thesis
  proof (cases op)
    case (Execute fails now cmd args info)
    have "held a itemB X (submitted now cmd args info s)"
      by (rule held_submitted[OF ic assms(2)])
    then show ?thesis by (simp add: Execute executeImpl_alt held_stops)
  next
    case (Dispatch fails msg)
    from assms(3) have "registered a (received msg s)"
      by (simp add: Dispatch dispatchMessage_alt registered_sendNextRequests)
    from held_received[OF ic assms(2) this] show ?thesis
      by (simp add: Dispatch dispatchMessage_alt held_stops)
  next
    case (Cancel q)
    with held_cancel[OF assms(1,2), of q] assms(3) show ?thesis by simp
  next
    case (WorkerExit code)
    with assms(3) show ?thesis by (simp add: handleExit_def)
  next
    case (WorkerError e)
    with assms(3) show ?thesis by (simp add: handleError_def)
  next
    case Dispose
    with assms(3) show ?thesis by (simp add: dispose_def registered_keys)
  next
    case Microtasks
    have "held a itemB X (runMicrotasks s)"
      by (rule held_same[OF assms(2)]) simp_all
    then show ?thesis by (simp add: Microtasks)
  qed
qed

lemma held_run:
  assumes "invariant s" and "held a itemB X s" and "registered a (run ops s)"
  shows "held a itemB X (run ops s)"
  using assms
proof (induction ops arbitrary: s)
  case Nil
  then show ?case by (simp add: run_def)
next
  case (Cons op ops)
  have r: "run (op # ops) s = run ops (step op s)" by (simp add: run_def)
  have i: "invariant (step op s)" by (rule step_invariant[OF Cons.prems(1)])
  have "registered a (step op s)"
  proof (rule ccontr)
    assume n: "\<not> registered a (step op s)"
    have "a < sequenceNumber (requestQueue (step op s))"
      using sequenceNumber_step[of s op] Cons.prems(2) by (simp add: held_def)
    from unregistered_run[OF i this n] Cons.prems(3) show False by (simp add: r)
  qed
  from held_step[OF Cons.prems(1,2) this] have "held a itemB X (step op s)" .
  from Cons.IH[OF i this] Cons.prems(3) show ?case by (simp add: r)
qed

lemma execute_first:
  assumes "invariant s" and "pendingResponses s = {}" and "queue (requestQueue s) = []"
    and "expectsResult info" and "\<not> info_isAsync info"
    and "fails \<lparr>seq = sequenceNumber (requestQueue s), command = cmd, arguments = args\<rparr> = None"
  shows "stdin (snd (executeImpl fails now cmd args info s)) =
           stdin s @ [\<lparr>seq = sequenceNumber (requestQueue s), command = cmd, arguments = args\<rparr>]"
    and "pendingResponses (snd (executeImpl fails now cmd args info s)) = {sequenceNumber (requestQueue s)}"
    and "queue (requestQueue (snd (executeImpl fails now cmd args info s))) = []"
    and "registered (sequenceNumber (requestQueue s)) (snd (executeImpl fails now cmd args info s))"
    and "sequenceNumber (requestQueue (snd (executeImpl fails now cmd args info s))) =
           Suc (sequenceNumber (requestQueue s))"
proof -
  let ?n = "sequenceNumber (requestQueue s)"
  let ?rq = "\<lparr>seq = ?n, command = cmd, arguments = args\<rparr>"
  let ?item = "\<lparr>request = ?rq, expectsResponse = expectsResult info, isAsync = info_isAsync info\<rparr>"
  let ?u = "submitted now cmd args info s"
  let ?v = "sendRequest fails ?item (shifted ?u [])"
  from assms(1) have ic: "inv_callbacks s" by (simp add: invariant_def)
  have q: "queue (requestQueue ?u) = ?item # []" using assms(3) by simp
  have p: "pendingResponses ?u = {}" using assms(2) by simp
  have v: "?v = (marked ?item [] ?u)\<lparr>stdin := stdin ?u @ [?rq]\<rparr>"
    using assms(6) by (simp add: sendRequest_marked)
  have "pendingResponses ((marked ?item [] ?u)\<lparr>stdin := stdin ?u @ [?rq]\<rparr>) = {?n}"
    using assms(4,5) p by (simp add: marked_def)
  then have pv: "pendingResponses ?v = {?n}"
    by (simp only: v)
  then have stop: "sendNextRequests fails ?v = ?v"
    by (simp add: sendNextRequests_stop)
  have e: "snd (executeImpl fails now cmd args info s) = ?v"
    by (simp add: executeImpl_alt sendNextRequests_go[OF p q] stop)
  show "stdin (snd (executeImpl fails now cmd args info s)) = stdin s @ [?rq]"
    unfolding e v by simp
  show "pendingResponses (snd (executeImpl fails now cmd args info s)) = {?n}"
    unfolding e by (rule pv)
  show "queue (requestQueue (snd (executeImpl fails now cmd args info s))) = []"
    unfolding e v by simp
  have "registered ?n ?u" by (simp add: submitted_registered[OF ic] assms(4))
  then show "registered ?n (snd (executeImpl fails now cmd args info s))"
    unfolding e v by (simp add: registered_def)
  show "sequenceNumber (requestQueue (snd (executeImpl fails now cmd args info s))) = Suc ?n"
    unfolding e v by simp
qed

lemma execute_behind:
  assumes "invariant s" and "registered a s" and "pendingResponses s = {a}"
    and "queue (requestQueue s) = []" and "a < sequenceNumber (requestQueue s)"
  shows "held a \<lparr>request = \<lparr>seq = sequenceNumber (requestQueue s), command = cmd, arguments = args\<rparr>,
                  expectsResponse = expectsResult info, isAsync = info_isAsync info\<rparr>
           (stdin s) (snd (executeImpl fails now cmd args info s))"
proof -
  let ?u = "submitted now cmd args info s"
  from assms(1) have ic: "inv_callbacks s" by (simp add: invariant_def)
  have "pendingResponses ?u \<noteq> {}" using assms(3) by simp
  then have e: "snd (executeImpl fails now cmd args info s) = ?u"
    by (simp add: executeImpl_alt sendNextRequests_stop)
  show ?thesis
    unfolding e held_def
    using assms(2-5) by (simp add: submitted_registered[OF ic])
qed

section \<open>The queue is in the order of the sequence numbers\<close>

lemma inv_order_shrinks:
  assumes "inv_order s" and "sorted (queued t)" and "set (queued t) \<subseteq> set (queued s)"
    and "pendingResponses t \<subseteq> pendingResponses s" and "stdin t = stdin s"
    and "sequenceNumber (requestQueue t) = sequenceNumber (requestQueue s)"
  shows "inv_order t"
  using assms unfolding inv_order_def by auto

lemma inv_order_submitted:
  assumes "inv_queue s" and "inv_order s"
  shows "inv_order (submitted now cmd args info s)"
proof -
  let ?t = "submitted now cmd args info s"
  have q: "queued ?t = queued s @ [sequenceNumber (requestQueue s)]"
    by (simp add: queued_def)
  from assms(1) have b: "\<forall>x \<in> set (queued s). x < sequenceNumber (requestQueue s)"
    and p: "\<forall>x \<in> pendingResponses s. x < sequenceNumber (requestQueue s)"
    unfolding inv_queue_def by auto
  from assms(2) b have "sorted (queued ?t)"
    unfolding q inv_order_def by (auto simp: sorted_append less_imp_le)
  moreover from assms(2) p have "\<forall>x \<in> pendingResponses ?t. \<forall>y \<in> set (queued ?t). x < y"
    unfolding q inv_order_def by auto
  moreover from assms(2) have "\<forall>rq \<in> set (stdin ?t). seq rq < sequenceNumber (requestQueue ?t)"
    unfolding inv_order_def by (auto simp: less_Suc_eq)
  ultimately show ?thesis unfolding inv_order_def by blast
qed

lemma inv_order_sendRequest:
  assumes "inv_queue s" and "inv_order s" and p: "pendingResponses s = {}"
    and q: "queue (requestQueue s) = item # rest"
  shows "inv_order (sendRequest fails item (shifted s rest))"
proof -
  let ?t = "sendRequest fails item (shifted s rest)"
  let ?x = "seq (request item)"
  have qs: "queued s = ?x # queued ?t" by (simp add: queued_def q)
  from assms(1) have d: "distinct (queued s)" and b: "?x < sequenceNumber (requestQueue s)"
    unfolding inv_queue_def qs by auto
  from assms(2) have so: "sorted (queued s)"
    and w: "\<forall>rq \<in> set (stdin s). seq rq < sequenceNumber (requestQueue s)"
    unfolding inv_order_def by auto
  have "pendingResponses ?t \<subseteq> {?x}"
    using sendRequest_pending_subset[of fails item "shifted s rest"] p by (auto split: if_splits)
  moreover have "\<forall>y \<in> set (queued ?t). ?x < y"
  proof
    fix y assume y: "y \<in> set (queued ?t)"
    with so have "?x \<le> y" unfolding qs by simp
    moreover from d y have "?x \<noteq> y" unfolding qs by auto
    ultimately show "?x < y" by simp
  qed
  ultimately have "\<forall>x \<in> pendingResponses ?t. \<forall>y \<in> set (queued ?t). x < y" by blast
  moreover have "sorted (queued ?t)" using so unfolding qs by simp
  moreover have "\<forall>rq \<in> set (stdin ?t). seq rq < sequenceNumber (requestQueue ?t)"
    using w b by (auto simp: sendRequest_stdin split: if_splits)
  ultimately show ?thesis unfolding inv_order_def by blast
qed

lemma inv_order_sendNextRequests:
  assumes "invariant s" and "inv_order s"
  shows "inv_order (sendNextRequests fails s)"
proof -
  have "invariant (sendNextRequests fails s) \<and> inv_order (sendNextRequests fails s)"
  proof (rule sendNextRequests_preserves[where I = "\<lambda>t. invariant t \<and> inv_order t"])
    show "invariant s \<and> inv_order s" using assms by simp
  next
    fix t item rest
    assume i: "invariant t \<and> inv_order t" and p: "pendingResponses t = {}"
      and q: "queue (requestQueue t) = item # rest"
    from i have "inv_queue t" by (simp add: invariant_def)
    from inv_order_sendRequest[OF this _ p q] sendRequest_invariant[OF _ p q] i
    show "invariant (sendRequest fails item (shifted t rest)) \<and>
          inv_order (sendRequest fails item (shifted t rest))" by simp
  qed
  then show ?thesis by simp
qed

lemma inv_order_received:
  assumes "inv_order s"
  shows "inv_order (received msg s)"
  by (rule inv_order_shrinks[OF assms])
     (use assms received_pending_subset[of msg s] in \<open>simp_all add: inv_order_def queued_def\<close>)

lemma inv_order_onCancellationRequested:
  assumes "inv_order s"
  shows "inv_order (onCancellationRequested q s)"
proof (cases "closures s q")
  case None
  with assms show ?thesis by (simp add: onCancellationRequested_def)
next
  case (Some c)
  show ?thesis
  proof (cases "token (cl_info c)")
    case False
    with assms Some show ?thesis by (simp add: onCancellationRequested_def)
  next
    case True
    let ?f = "s\<lparr>closures := (closures s)(q \<mapsto> c\<lparr>wasCancelled := True\<rparr>)\<rparr>"
    let ?t = "snd (tryCancelRequest q ?f)"
    have t: "onCancellationRequested q s = ?t"
      using Some True by (simp add: onCancellationRequested_def)
    have qt: "queued ?t = remove1 q (queued s)"
      by (simp add: queued_def splice_first_seqs)
    from assms have so: "sorted (queued s)" by (simp add: inv_order_def)
    have "inv_order ?t"
    proof (rule inv_order_shrinks[OF assms])
      show "sorted (queued ?t)" unfolding qt using so by (rule sorted_remove1)
      show "set (queued ?t) \<subseteq> set (queued s)" unfolding qt by (rule set_remove1_subset)
      show "pendingResponses ?t \<subseteq> pendingResponses s"
        by (auto simp: tryCancelRequest_pending split: if_splits)
    qed simp_all
    then show ?thesis by (simp only: t)
  qed
qed

lemma inv_order_step:
  assumes "invariant s" and "inv_order s"
  shows "inv_order (step op s)"
proof (cases op)
  case (Execute fails now cmd args info)
  from assms(1) have "inv_queue s" by (simp add: invariant_def)
  from inv_order_sendNextRequests[OF submitted_invariant[OF assms(1)] inv_order_submitted[OF this assms(2)]]
  show ?thesis by (simp add: Execute executeImpl_alt)
next
  case (Dispatch fails msg)
  from inv_order_sendNextRequests[OF received_invariant[OF assms(1)] inv_order_received[OF assms(2)]]
  show ?thesis by (simp add: Dispatch dispatchMessage_alt)
next
  case (Cancel q)
  with inv_order_onCancellationRequested[OF assms(2)] show ?thesis by simp
next
  case (WorkerExit code)
  have "inv_order (handleExit code s)"
    by (rule inv_order_shrinks[OF assms(2)])
       (use assms(2) in \<open>simp_all add: handleExit_def inv_order_def queued_def\<close>)
  then show ?thesis by (simp add: WorkerExit)
next
  case (WorkerError e)
  have "inv_order (handleError e s)"
    by (rule inv_order_shrinks[OF assms(2)])
       (use assms(2) in \<open>simp_all add: handleError_def inv_order_def queued_def\<close>)
  then show ?thesis by (simp add: WorkerError)
next
  case Dispose
  have "inv_order (dispose s)"
    by (rule inv_order_shrinks[OF assms(2)])
       (use assms(2) in \<open>simp_all add: dispose_def inv_order_def queued_def\<close>)
  then show ?thesis by (simp add: Dispose)
next
  case Microtasks
  have "inv_order (runMicrotasks s)"
    by (rule inv_order_shrinks[OF assms(2)])
       (use assms(2) in \<open>simp_all add: inv_order_def queued_def\<close>)
  then show ?thesis by (simp add: Microtasks)
qed

lemma inv_order_run:
  assumes "invariant s" and "inv_order s"
  shows "inv_order (run ops s)"
  using assms
proof (induction ops arbitrary: s)
  case Nil
  then show ?case by (simp add: run_def)
next
  case (Cons op ops)
  from Cons.IH[OF step_invariant[OF Cons.prems(1)] inv_order_step[OF Cons.prems]]
  show ?case by (simp add: run_def)
qed

lemma reachable_order: "inv_order (run ops (new_server pipeName))"
  by (rule inv_order_run[OF new_server_invariant]) (simp add: inv_order_def queued_def new_server_def)


section \<open>While the first of two requests is unresolved, the second is not written\<close>

lemma waiting_same:
  assumes "waiting a reqB s" and "callbacks t = callbacks s" and "pendingResponses t = pendingResponses s"
    and "stdin t = stdin s" and "requestQueue t = requestQueue s"
  shows "waiting a reqB t"
  using assms by (simp add: waiting_def registered_def queued_def)

lemma waiting_submitted:
  assumes "inv_callbacks s" and "waiting a reqB s" and "a < sequenceNumber (requestQueue s)"
    and "Suc a \<noteq> sequenceNumber (requestQueue s) \<or>
         reqB = \<lparr>seq = sequenceNumber (requestQueue s), command = cmd, arguments = args\<rparr>"
  shows "waiting a reqB (submitted now cmd args info s)"
proof -
  let ?t = "submitted now cmd args info s"
  have q: "queued ?t = queued s @ [sequenceNumber (requestQueue s)]"
    by (simp add: queued_def)
  from assms(2) have "registered a ?t" by (simp add: waiting_def submitted_registered[OF assms(1)])
  moreover from assms(2) have "a \<in> set (queued ?t) \<or> a \<in> pendingResponses ?t"
    unfolding q by (auto simp: waiting_def)
  moreover from assms(2) have "Suc a \<notin> seq ` set (stdin ?t)" by (simp add: waiting_def)
  moreover from assms(2,3,4) have "\<forall>item \<in> set (queue (requestQueue ?t)).
        (seq (request item) = a \<longrightarrow> expectsResponse item \<and> \<not> isAsync item) \<and>
        (seq (request item) = Suc a \<longrightarrow> request item = reqB)"
    by (auto simp: waiting_def)
  moreover from assms(2) have "seq reqB = Suc a" by (simp add: waiting_def)
  ultimately show ?thesis unfolding waiting_def by blast
qed

lemma waiting_sendRequest:
  assumes inv: "invariant s" and ord: "inv_order s" and w: "waiting a reqB s"
    and p: "pendingResponses s = {}" and q: "queue (requestQueue s) = item # rest"
    and r: "registered a (sendRequest fails item (shifted s rest))"
  shows "waiting a reqB (sendRequest fails item (shifted s rest))"
proof -
  let ?t = "sendRequest fails item (shifted s rest)"
  let ?x = "seq (request item)"
  from inv have ic: "inv_callbacks s" and iq: "inv_queue s" by (simp_all add: invariant_def)
  have qs: "queued s = ?x # queued ?t" by (simp add: queued_def q)
  from w have b: "seq reqB = Suc a" and ra: "registered a s"
    and nw: "Suc a \<notin> seq ` set (stdin s)"
    and items: "\<forall>item \<in> set (queue (requestQueue s)).
        (seq (request item) = a \<longrightarrow> expectsResponse item \<and> \<not> isAsync item) \<and>
        (seq (request item) = Suc a \<longrightarrow> request item = reqB)"
    by (simp_all add: waiting_def)
  from w p have aq: "a \<in> set (queued s)" by (simp add: waiting_def)
  from ord have so: "sorted (queued s)" by (simp add: inv_order_def)
  from so aq have "?x \<le> a" unfolding qs by auto
  then have xb: "?x \<noteq> Suc a" by simp
  have 1: "Suc a \<notin> seq ` set (stdin ?t)"
    using nw xb by (auto simp: sendRequest_stdin split: if_splits)
  have 2: "\<forall>item \<in> set (queue (requestQueue ?t)).
        (seq (request item) = a \<longrightarrow> expectsResponse item \<and> \<not> isAsync item) \<and>
        (seq (request item) = Suc a \<longrightarrow> request item = reqB)"
    using items by (simp add: q)
  have 3: "a \<in> set (queued ?t) \<or> a \<in> pendingResponses ?t"
  proof (cases "?x = a")
    case False
    with aq show ?thesis unfolding qs by simp
  next
    case True
    with items have k: "expectsResponse item \<and> \<not> isAsync item" by (simp add: q)
    show ?thesis
    proof (cases "fails (request item)")
      case None
      with k True have "a \<in> pendingResponses ?t"
        by (simp add: sendRequest_marked marked_def)
      then show ?thesis by simp
    next
      case (Some m)
      then have "callbacks ?t = delete a (callbacks s)"
        by (simp add: sendRequest_marked True)
      from registered_after_delete[OF ic this, of a] r show ?thesis by simp
    qed
  qed
  from r b 1 2 3 show ?thesis unfolding waiting_def by blast
qed

lemma waiting_sendNextRequests:
  "invariant s \<Longrightarrow> inv_order s \<Longrightarrow> waiting a reqB s \<Longrightarrow>
   registered a (sendNextRequests fails s) \<Longrightarrow> waiting a reqB (sendNextRequests fails s)"
proof (induction s rule: sendNextRequests_rounds[where fails = fails])
  case (stop s)
  then show ?case by (simp add: sendNextRequests_stop)
next
  case (go s item rest)
  let ?t = "sendRequest fails item (shifted s rest)"
  have e: "sendNextRequests fails s = sendNextRequests fails ?t"
    by (rule sendNextRequests_go[OF go.hyps(1,2)])
  from go.prems(1) have iq: "inv_queue s" by (simp add: invariant_def)
  from go.prems(4) have "registered a ?t"
    unfolding e by (rule registered_sendNextRequests)
  from waiting_sendRequest[OF go.prems(1,2,3) go.hyps(1,2) this]
  have "waiting a reqB ?t" .
  from go.IH[OF sendRequest_invariant[OF go.prems(1) go.hyps(1,2)]
      inv_order_sendRequest[OF iq go.prems(2) go.hyps(1,2)] this] go.prems(4)
  show ?case unfolding e by simp
qed

lemma waiting_resolves:
  assumes "inv_callbacks s" and "waiting a reqB s" and "registered a t"
    and c: "callbacks t = delete sq (callbacks s)"
    and p: "pendingResponses s - {sq} \<subseteq> pendingResponses t"
    and "stdin t = stdin s" and q: "requestQueue t = requestQueue s"
  shows "waiting a reqB t"
proof -
  from registered_after_delete[OF assms(1) c, of a] assms(3) have "a \<noteq> sq" by simp
  with assms(2) p have "a \<in> set (queued t) \<or> a \<in> pendingResponses t"
    by (auto simp: waiting_def queued_def q)
  with assms(2,3,6) q show ?thesis by (simp add: waiting_def queued_def)
qed

lemma waiting_received:
  assumes "inv_callbacks s" and "waiting a reqB s" and "registered a (received msg s)"
  shows "waiting a reqB (received msg s)"
proof (cases msg)
  case (ResponseMsg r)
  have "waiting a reqB (dispatchResponse r s)"
  proof (rule waiting_resolves[OF assms(1,2), where sq = "request_seq r"])
    show "registered a (dispatchResponse r s)"
      using assms(3) by (simp add: ResponseMsg received_def)
  qed (auto simp: dispatchResponse_callbacks dispatchResponse_pending)
  then show ?thesis by (simp add: ResponseMsg received_def)
next
  case (EventMsg ev)
  show ?thesis
  proof (cases "event ev = ''requestCompleted''")
    case True
    have "waiting a reqB (received (EventMsg ev) s)"
    proof (rule waiting_resolves[OF assms(1,2), where sq = "body_request_seq ev"])
      show "registered a (received (EventMsg ev) s)"
        using assms(3) by (simp add: EventMsg)
    qed (use True in \<open>auto simp: received_def split: option.splits\<close>)
    then show ?thesis by (simp add: EventMsg)
  next
    case False
    have "waiting a reqB (received (EventMsg ev) s)"
      by (rule waiting_same[OF assms(2)]) (use False in \<open>simp_all add: received_def\<close>)
    then show ?thesis by (simp add: EventMsg)
  qed
next
  case (UnknownMsg t)
  with assms(2) show ?thesis by (simp add: received_def)
qed

lemma waiting_cancel:
  assumes "invariant s" and "waiting a reqB s" and "registered a (onCancellationRequested q s)"
  shows "waiting a reqB (onCancellationRequested q s)"
proof (cases "closures s q")
  case None
  with assms(2) show ?thesis by (simp add: onCancellationRequested_def)
next
  case (Some c)
  show ?thesis
  proof (cases "token (cl_info c)")
    case False
    with assms(2) Some show ?thesis by (simp add: onCancellationRequested_def)
  next
    case True
    let ?f = "s\<lparr>closures := (closures s)(q \<mapsto> c\<lparr>wasCancelled := True\<rparr>)\<rparr>"
    let ?t = "snd (tryCancelRequest q ?f)"
    have t: "onCancellationRequested q s = ?t"
      using Some True by (simp add: onCancellationRequested_def)
    from assms(1) have ic: "inv_callbacks s" by (simp add: invariant_def)
    have icf: "inv_callbacks ?f" by (rule inv_callbacks_same[OF ic]) simp_all
    from assms(2) have b: "seq reqB = Suc a"
      and f1: "a \<in> set (queued s) \<or> a \<in> pendingResponses s"
      and nw: "Suc a \<notin> seq ` set (stdin s)"
      and items: "\<forall>item \<in> set (queue (requestQueue s)).
        (seq (request item) = a \<longrightarrow> expectsResponse item \<and> \<not> isAsync item) \<and>
        (seq (request item) = Suc a \<longrightarrow> request item = reqB)"
      by (simp_all add: waiting_def)
    have rt: "registered a ?t" using assms(3) by (simp add: t)
    with registered_after_delete[OF icf, of ?t q a] have ne: "a \<noteq> q" by simp
    have qt: "queued ?t = remove1 q (queued s)"
      by (simp add: queued_def splice_first_seqs)
    have "a \<in> set (queued ?t) \<or> a \<in> pendingResponses ?t"
      using f1 ne unfolding qt by (auto simp: tryCancelRequest_pending)
    moreover have "set (queue (requestQueue ?t)) \<subseteq> set (queue (requestQueue s))"
      using splice_first_subset[of q "queue (requestQueue s)"] by simp
    with items have "\<forall>item \<in> set (queue (requestQueue ?t)).
        (seq (request item) = a \<longrightarrow> expectsResponse item \<and> \<not> isAsync item) \<and>
        (seq (request item) = Suc a \<longrightarrow> request item = reqB)"
      by blast
    moreover have "Suc a \<notin> seq ` set (stdin ?t)" using nw by simp
    ultimately show ?thesis
      unfolding t waiting_def using rt b by blast
  qed
qed

lemma waiting_step:
  assumes "invariant s" and "inv_order s" and "waiting a reqB s"
    and "Suc a < sequenceNumber (requestQueue s)" and "registered a (step op s)"
  shows "waiting a reqB (step op s)"
proof -
  from assms(1) have ic: "inv_callbacks s" and iq: "inv_queue s" by (simp_all add: invariant_def)
  from assms(3,4) have an: "a < sequenceNumber (requestQueue s)" by (simp add: waiting_def)
  show ?thesis
  proof (cases op)
    case (Execute fails now cmd args info)
    have "waiting a reqB (submitted now cmd args info s)"
      by (rule waiting_submitted[OF ic assms(3) an]) (use assms(4) in simp)
    from waiting_sendNextRequests[OF submitted_invariant[OF assms(1)]
        inv_order_submitted[OF iq assms(2)] this] assms(5)
    show ?thesis by (simp add: Execute executeImpl_alt)
  next
    case (Dispatch fails msg)
    from assms(5) have "registered a (received msg s)"
      by (simp add: Dispatch dispatchMessage_alt registered_sendNextRequests)
    from waiting_sendNextRequests[OF received_invariant[OF assms(1)] inv_order_received[OF assms(2)]
        waiting_received[OF ic assms(3) this]] assms(5)
    show ?thesis by (simp add: Dispatch dispatchMessage_alt)
  next
    case (Cancel q)
    with waiting_cancel[OF assms(1,3), of q] assms(5) show ?thesis by simp
  next
    case (WorkerExit code)
    with assms(5) show ?thesis by (simp add: handleExit_def)
  next
    case (WorkerError e)
    with assms(5) show ?thesis by (simp add: handleError_def)
  next
    case Dispose
    with assms(5) show ?thesis by (simp add: dispose_def registered_keys)
  next
    case Microtasks
    have "waiting a reqB (runMicrotasks s)"
      by (rule waiting_same[OF assms(3)]) simp_all
    then show ?thesis by (simp add: Microtasks)
  qed
qed

lemma waiting_run:
  assumes "invariant s" and "inv_order s" and "waiting a reqB s"
    and "Suc a < sequenceNumber (requestQueue s)" and "registered a (run ops s)"
  shows "waiting a reqB (run ops s)"
  using assms
proof (induction ops arbitrary: s)
  case Nil
  then show ?case by (simp add: run_def)
next
  case (Cons op ops)
  have r: "run (op # ops) s = run ops (step op s)" by (simp add: run_def)
  have i: "invariant (step op s)" by (rule step_invariant[OF Cons.prems(1)])
  have o: "inv_order (step op s)" by (rule inv_order_step[OF Cons.prems(1,2)])
  have n: "Suc a < sequenceNumber (requestQueue (step op s))"
    using sequenceNumber_step[of s op] Cons.prems(4) by simp
  have "registered a (step op s)"
  proof (rule ccontr)
    assume u: "\<not> registered a (step op s)"
    from Cons.prems(3) n have "a < sequenceNumber (requestQueue (step op s))"
      by (simp add: waiting_def)
    from unregistered_run[OF i this u] Cons.prems(5) show False by (simp add: r)
  qed
  from waiting_step[OF Cons.prems(1,2,3,4) this] have "waiting a reqB (step op s)" .
  from Cons.IH[OF i o this n] Cons.prems(5) show ?case by (simp add: r)
qed

text \<open>The head of a sorted queue whose numbers all exceed \<open>a\<close> and that holds \<open>a + 1\<close>.\<close>

lemma next_is_head:
  assumes "invariant s" and "inv_order s" and "a \<in> pendingResponses s" and "Suc a \<in> set (queued s)"
  obtains item rest where "queue (requestQueue s) = item # rest" and "seq (request item) = Suc a"
proof -
  from assms(4) obtain item rest where q: "queue (requestQueue s) = item # rest"
    by (cases "queue (requestQueue s)") (auto simp: queued_def)
  then have qs: "queued s = seq (request item) # map (\<lambda>i. seq (request i)) rest"
    by (simp add: queued_def)
  from assms(2,3) have "a < seq (request item)" unfolding inv_order_def qs by simp
  moreover from assms(2,4) have "seq (request item) \<le> Suc a"
    unfolding inv_order_def qs by auto
  ultimately have "seq (request item) = Suc a" by simp
  with q that show ?thesis by blast
qed

text \<open>A request that is in flight and unresolved holds the gate, whatever is queued.\<close>

lemma in_flight_run:
  assumes "invariant s" and "registered a s" and "a \<in> pendingResponses s"
    and "registered a (run ops s)"
  shows "stdin (run ops s) = stdin s" and "a \<in> pendingResponses (run ops s)"
proof -
  let ?item = "\<lparr>request = \<lparr>seq = a, command = [], arguments = []\<rparr>, expectsResponse = True, isAsync = False\<rparr>"
  from assms(1,3) have "a < sequenceNumber (requestQueue s)" and "a \<notin> set (queued s)"
    unfolding invariant_def inv_queue_def by auto
  with assms(2,3) have "held a ?item (stdin s) s" by (simp add: held_def)
  from held_run[OF assms(1) this assms(4)]
  show "stdin (run ops s) = stdin s" and "a \<in> pendingResponses (run ops s)"
    by (simp_all add: held_def)
qed

section \<open>The claims\<close>

text \<open>
  C1. Take any sequence of operations on a new server (submissions, dispatched responses
  and completion events, cancellations, writes that throw, the worker's exit and error,
  microtasks) and an outcome registered at some point of it. At every later point a
  continuation of that outcome has been invoked exactly once when it is no longer
  registered, and not at all while it still is: never twice. After a final \<open>dispose\<close>
  exactly one continuation has been invoked, and both partitions of the registry are
  empty. (A callback sits under the sequence number of its own promise, so
  \<open>resolutions p\<close> counts the invocations of the outcome registered under \<open>p\<close>.)
\<close>

theorem every_outcome_resolved_exactly_once:
  assumes "registered p (run ops (new_server pipeName))"
  shows "resolutions p (run (ops @ later) (new_server pipeName)) =
           (if registered p (run (ops @ later) (new_server pipeName)) then 0 else 1)
       \<and> resolutions p (run (ops @ later @ [Dispose]) (new_server pipeName)) = 1
       \<and> m_callbacks (callbacks (run (ops @ later @ [Dispose]) (new_server pipeName))) = []
       \<and> m_asyncCallbacks (callbacks (run (ops @ later @ [Dispose]) (new_server pipeName))) = []"
proof -
  let ?s = "run ops (new_server pipeName)"
  let ?t = "run (ops @ later) (new_server pipeName)"
  let ?u = "run (ops @ later @ [Dispose]) (new_server pipeName)"
  have u: "?u = dispose ?t"
    using run_snoc[of "ops @ later" Dispose "new_server pipeName"] by simp
  have c: "closures ?s p \<noteq> None"
    by (rule invariant_registered_closure[OF reachable_invariant assms])
  then have ct: "closures ?t p \<noteq> None"
    by (simp add: run_append closures_run)
  then have cu: "closures ?u p \<noteq> None"
    unfolding u by (simp add: dispose_def)
  have "resolutions p ?t = (if registered p ?t then 0 else 1)"
    by (rule invariant_resolutions[OF reachable_invariant ct])
  moreover have "resolutions p ?u = (if registered p ?u then 0 else 1)"
    by (rule invariant_resolutions[OF reachable_invariant cu])
  moreover have "\<not> registered p ?u"
    unfolding u by (simp add: dispose_def registered_keys)
  moreover have "m_callbacks (callbacks ?u) = []" "m_asyncCallbacks (callbacks ?u) = []"
    unfolding u by (simp_all add: dispose_def)
  ultimately show ?thesis by simp
qed

theorem every_outcome_resolved_exactly_once_witness:
  "registered 0 (run first_registered (new_server None)) \<and>
   resolutions 0 (run first_registered (new_server None)) = 0 \<and>
   invocations (run (first_registered @ then_resolved) (new_server None)) =
     [OnSuccess 0 (Some \<lparr>request_seq = 0, success = True, message = None, body = ''{}''\<rparr>),
      OnError 1 (cancelledRequest 1)] \<and>
   resolutions 0 (run (first_registered @ then_resolved @ [Dispose]) (new_server None)) = 1 \<and>
   m_callbacks (callbacks (run (first_registered @ then_resolved @ [Dispose]) (new_server None))) = [] \<and>
   m_asyncCallbacks (callbacks (run (first_registered @ then_resolved @ [Dispose]) (new_server None))) = []"
proof -
  have "invocations (run (first_registered @ then_resolved) (new_server None)) =
     [OnSuccess 0 (Some \<lparr>request_seq = 0, success = True, message = None, body = ''{}''\<rparr>),
      OnError 1 (cancelledRequest 1)]"
    by (simp add: first_registered_def then_resolved_def success_of_def engine_simps)
  moreover have "resolutions 0 (run first_registered (new_server None)) = 0"
    by (simp add: first_registered_def engine_simps)
  ultimately show ?thesis
    using every_outcome_resolved_exactly_once[OF first_registered_fact, of then_resolved]
      first_registered_fact
    by simp
qed

text \<open>
  C2, as stated, fails. In \<open>exit_scenario\<close> three outcomes are outstanding: 2 and 3 are
  synchronous, queued and unsent, 0 is asynchronous and in flight. The exit handler fails
  all three, and the queue still holds 2 and 3 afterwards: it is not empty.
\<close>

theorem worker_exit_queue_counterexample:
  "map fst (m_callbacks (callbacks exit_scenario)) = [2, 3] \<and>
   map fst (m_asyncCallbacks (callbacks exit_scenario)) = [0] \<and>
   queued exit_scenario = [2, 3] \<and>
   map seq (stdin exit_scenario) = [0, 1] \<and>
   invocations (handleExit ''0'' exit_scenario) =
     invocations exit_scenario @
       [OnError 2 (Error ''server exited''), OnError 3 (Error ''server exited''),
        OnError 0 (Error ''server exited'')] \<and>
   queued (handleExit ''0'' exit_scenario) = [2, 3] \<and>
   queue (requestQueue (handleExit ''0'' exit_scenario)) \<noteq> []"
proof -
  have "queue (requestQueue (handleExit ''0'' exit_scenario)) \<noteq> []"
    using exit_scenario_after(2) by (auto simp: queued_def)
  then show ?thesis
    using exit_scenario_facts exit_scenario_after by simp
qed

text \<open>
  C2, amended. When the worker exits, every outcome registered in a reachable state is
  resolved to failure with the error \<open>server exited\<close>, exactly one of its continuations has
  then been invoked, it is no longer registered, and the queue is what it was: the
  unsent commands are still queued.
\<close>

theorem worker_exit_fails_all_keeps_queue:
  assumes "registered p (run ops (new_server pipeName))"
  shows "OnError p (Error ''server exited'') \<in> set (invocations (handleExit code (run ops (new_server pipeName))))
       \<and> resolutions p (handleExit code (run ops (new_server pipeName))) = 1
       \<and> \<not> registered p (handleExit code (run ops (new_server pipeName)))
       \<and> queue (requestQueue (handleExit code (run ops (new_server pipeName)))) =
           queue (requestQueue (run ops (new_server pipeName)))"
proof -
  let ?s = "run ops (new_server pipeName)"
  have i: "invariant ?s" by (rule reachable_invariant)
  then have ic: "inv_callbacks ?s" by (simp add: invariant_def)
  from assms obtain cb where f: "fst (fetch p (callbacks ?s)) = Some cb"
    by (auto simp: registered_def)
  then have "(p, cb) \<in> set (m_callbacks (callbacks ?s)) \<union> set (m_asyncCallbacks (callbacks ?s))"
    by (auto simp: fetch_def Let_def split: option.splits dest: map_of_SomeD)
  then have "cb \<in> set (map snd (m_callbacks (callbacks ?s)) @ map snd (m_asyncCallbacks (callbacks ?s)))"
    by force
  then have "OnError (promise cb) (Error ''server exited'') \<in> set (invocations (handleExit code ?s))"
    by (simp add: handleExit_def) blast
  with fetch_Some_promise(1)[OF ic f]
  have 1: "OnError p (Error ''server exited'') \<in> set (invocations (handleExit code ?s))" by simp
  have h: "handleExit code ?s = run (ops @ [WorkerExit code]) (new_server pipeName)"
    by (simp add: run_snoc)
  have 3: "\<not> registered p (handleExit code ?s)"
    by (simp add: handleExit_def)
  have "closures (handleExit code ?s) p \<noteq> None"
    using invariant_registered_closure[OF i assms] by (simp add: handleExit_def)
  then have 2: "resolutions p (handleExit code ?s) = 1"
    using invariant_resolutions[of "handleExit code ?s" p] 3 reachable_invariant[of "ops @ [WorkerExit code]" pipeName]
    by (simp add: h)
  have 4: "queue (requestQueue (handleExit code ?s)) = queue (requestQueue ?s)"
    by (simp add: handleExit_def)
  from 1 2 3 4 show ?thesis by blast
qed

theorem worker_exit_fails_all_keeps_queue_witness:
  "registered 2 exit_scenario \<and>
   OnError 2 (Error ''server exited'') \<in> set (invocations (handleExit ''0'' exit_scenario)) \<and>
   resolutions 2 (handleExit ''0'' exit_scenario) = 1 \<and>
   queued (handleExit ''0'' exit_scenario) = [2, 3]"
  using worker_exit_fails_all_keeps_queue[of 2
      "[Execute no_failure 1 ''geterr'' ''a'' async_info,
          Execute no_failure 2 ''quickinfo'' ''b'' sync_info,
          Dispatch no_failure (completed_event 1),
          Execute no_failure 3 ''completions'' ''c'' sync_info,
          Execute no_failure 4 ''definition'' ''d'' sync_info]" None "''0''", folded exit_scenario_def]
    exit_scenario_facts
  by (simp add: queued_def)

text \<open>
  C3, as stated, fails for the completion event. In \<open>one_in_flight\<close> the synchronous request
  0 is in the in-flight set and registered. Dispatching \<open>requestCompleted\<close> for 0 invokes its
  success continuation, and 0 is still in the in-flight set afterwards: that branch calls
  \<open>CallbackMap.fetch\<close>, not \<open>fetchCallback\<close>.
\<close>

theorem completion_event_keeps_in_flight_counterexample:
  "pendingResponses one_in_flight = {0} \<and>
   registered 0 one_in_flight \<and>
   invocations (snd (dispatchMessage no_failure (completed_event 0) one_in_flight)) = [OnSuccess 0 None] \<and>
   0 \<in> pendingResponses (snd (dispatchMessage no_failure (completed_event 0) one_in_flight))"
  by (simp add: one_in_flight_def completed_event_def engine_simps)

text \<open>
  C3, amended. In every reachable state, after a message has been dispatched the send loop
  has run: the in-flight set is not empty or the queue is. When the message is an ordinary
  response whose outcome is still registered and whose sequence number was in the in-flight
  set, that number is no longer there. A response whose outcome is not registered any more,
  and a completion event, leave the in-flight set as it was when it held their sequence
  number.
\<close>

theorem dispatch_drains_and_response_frees:
  "(pendingResponses (snd (dispatchMessage fails msg (run ops (new_server pipeName)))) \<noteq> {} \<or>
    queue (requestQueue (snd (dispatchMessage fails msg (run ops (new_server pipeName))))) = []) \<and>
   (registered (request_seq r) (run ops (new_server pipeName)) \<and>
    request_seq r \<in> pendingResponses (run ops (new_server pipeName)) \<longrightarrow>
      request_seq r \<notin> pendingResponses
        (snd (dispatchMessage fails (ResponseMsg r) (run ops (new_server pipeName))))) \<and>
   (\<not> registered (request_seq r) (run ops (new_server pipeName)) \<and>
    request_seq r \<in> pendingResponses (run ops (new_server pipeName)) \<longrightarrow>
      pendingResponses (snd (dispatchMessage fails (ResponseMsg r) (run ops (new_server pipeName))))
        = pendingResponses (run ops (new_server pipeName))) \<and>
   (event ev = ''requestCompleted'' \<and>
    body_request_seq ev \<in> pendingResponses (run ops (new_server pipeName)) \<longrightarrow>
      pendingResponses (snd (dispatchMessage fails (EventMsg ev) (run ops (new_server pipeName))))
        = pendingResponses (run ops (new_server pipeName)))"
proof -
  let ?s = "run ops (new_server pipeName)"
  have i: "invariant ?s" by (rule reachable_invariant)
  have a: "pendingResponses (snd (dispatchMessage fails msg ?s)) \<noteq> {} \<or>
      queue (requestQueue (snd (dispatchMessage fails msg ?s))) = []"
    by (simp only: dispatchMessage_alt) (rule sendNextRequests_drained)
  have b: "request_seq r \<notin> pendingResponses (snd (dispatchMessage fails (ResponseMsg r) ?s))"
    if reg: "registered (request_seq r) ?s" and p: "request_seq r \<in> pendingResponses ?s"
  proof -
    let ?t = "received (ResponseMsg r) ?s"
    have "pendingResponses ?t = {}"
      using invariant_pending_cases(1)[OF i p] reg
      by (simp add: received_def dispatchResponse_pending)
    moreover have "queued ?t = queued ?s" by (simp add: queued_def)
    ultimately have "pendingResponses (sendNextRequests fails ?t) \<subseteq> set (queued ?s)"
      using sendNextRequests_pending_subset[of fails ?t] by simp
    with invariant_pending_cases(2)[OF i p] show ?thesis
      by (auto simp: dispatchMessage_alt)
  qed
  have c: "pendingResponses (snd (dispatchMessage fails (ResponseMsg r) ?s)) = pendingResponses ?s"
    if "\<not> registered (request_seq r) ?s" and p: "request_seq r \<in> pendingResponses ?s"
  proof -
    have e: "pendingResponses (received (ResponseMsg r) ?s) = pendingResponses ?s"
      using that by (simp add: received_def dispatchResponse_pending)
    with p have "pendingResponses (received (ResponseMsg r) ?s) \<noteq> {}" by auto
    then have "sendNextRequests fails (received (ResponseMsg r) ?s) = received (ResponseMsg r) ?s"
      by (simp add: sendNextRequests_stop)
    then show ?thesis by (simp add: dispatchMessage_alt e)
  qed
  have d: "pendingResponses (snd (dispatchMessage fails (EventMsg ev) ?s)) = pendingResponses ?s"
    if "event ev = ''requestCompleted''" and p: "body_request_seq ev \<in> pendingResponses ?s"
  proof -
    have e: "pendingResponses (received (EventMsg ev) ?s) = pendingResponses ?s"
      using that by (simp add: received_def split: option.splits)
    with p have "pendingResponses (received (EventMsg ev) ?s) \<noteq> {}" by auto
    then have "sendNextRequests fails (received (EventMsg ev) ?s) = received (EventMsg ev) ?s"
      by (simp add: sendNextRequests_stop)
    then show ?thesis by (simp add: dispatchMessage_alt e)
  qed
  from a b c d show ?thesis by blast
qed

theorem dispatch_drains_and_response_frees_witness:
  "registered 0 one_in_flight \<and> 0 \<in> pendingResponses one_in_flight \<and>
   0 \<notin> pendingResponses (snd (dispatchMessage no_failure (success_of 0) one_in_flight)) \<and>
   pendingResponses (snd (dispatchMessage no_failure (completed_event 0) one_in_flight)) =
     pendingResponses one_in_flight \<and>
   queue (requestQueue (snd (dispatchMessage no_failure (success_of 0) one_in_flight))) = []"
proof -
  have f: "registered 0 one_in_flight" "0 \<in> pendingResponses one_in_flight"
    "queue (requestQueue (snd (dispatchMessage no_failure (success_of 0) one_in_flight))) = []"
    by (simp_all add: one_in_flight_def success_of_def engine_simps)
  show ?thesis
    using dispatch_drains_and_response_frees[of no_failure "success_of 0"
        "[Execute no_failure 7 ''quickinfo'' ''{}'' sync_info]" "Some ''pipe''"
        "\<lparr>request_seq = 0, success = True, message = None, body = ''{}''\<rparr>"
        "\<lparr>event = ''requestCompleted'', body_request_seq = 0\<rparr>",
        folded one_in_flight_def success_of_def completed_event_def] f
    by simp
qed

text \<open>
  C4. In every state reached from a new server by any sequence of operations, the in-flight
  synchronous set has at most one element, and each element is the sequence number of a
  promise whose \<open>executeInfo\<close> is not asynchronous. \<open>sendRequest\<close>, the only place that adds to
  the set, adds nothing for an asynchronous item, in any state.
\<close>

theorem at_most_one_synchronous_in_flight:
  "finite (pendingResponses (run ops (new_server pipeName))) \<and>
   card (pendingResponses (run ops (new_server pipeName))) \<le> 1 \<and>
   (\<forall>x \<in> pendingResponses (run ops (new_server pipeName)).
      \<exists>c. closures (run ops (new_server pipeName)) x = Some c \<and> \<not> info_isAsync (cl_info c)) \<and>
   (isAsync item \<longrightarrow> pendingResponses (sendRequest fails item s) \<subseteq> pendingResponses s)"
proof -
  let ?s = "run ops (new_server pipeName)"
  have i: "invariant ?s" by (rule reachable_invariant)
  then have "pendingResponses ?s = {} \<or> (\<exists>x. pendingResponses ?s = {x})"
    unfolding invariant_def inv_queue_def by blast
  then have "finite (pendingResponses ?s) \<and> card (pendingResponses ?s) \<le> 1"
    by auto
  moreover from i have "\<forall>x \<in> pendingResponses ?s. \<exists>c. closures ?s x = Some c \<and> \<not> info_isAsync (cl_info c)"
    unfolding invariant_def inv_kind_def by blast
  moreover have "isAsync item \<longrightarrow> pendingResponses (sendRequest fails item s) \<subseteq> pendingResponses s"
    using sendRequest_pending_subset[of fails item s] by auto
  ultimately show ?thesis by blast
qed

theorem at_most_one_synchronous_in_flight_witness:
  "pendingResponses two_waiting = {0} \<and>
   card (pendingResponses two_waiting) \<le> 1 \<and>
   (\<exists>c. closures two_waiting 0 = Some c \<and> \<not> info_isAsync (cl_info c)) \<and>
   isAsync third_item \<and>
   pendingResponses (sendRequest no_failure third_item two_waiting) \<subseteq> pendingResponses two_waiting"
  using at_most_one_synchronous_in_flight[of
      "[Execute no_failure 1 ''quickinfo'' ''a'' sync_info,
        Execute no_failure 2 ''completions'' ''b'' sync_info,
        Execute no_failure 3 ''geterr'' ''c'' async_info]" None third_item no_failure two_waiting,
      folded two_waiting_def]
    two_waiting_facts(1)
  by (simp add: third_item_def)




text \<open>
  C6. Whichever path the cancellation procedure takes for sequence number \<open>sq\<close> (the request
  was still queued, the cancellation pipe is signalled, or neither): when an outcome is
  still registered for \<open>sq\<close>, its failure continuation is invoked, once, with the error
  \<open>Cancelled Request sq\<close>, and \<open>sq\<close> leaves the in-flight synchronous set.
\<close>

theorem cancel_fails_registered_outcome:
  assumes "fst (fetch sq (callbacks s)) = Some cb"
  shows "invocations (snd (tryCancelRequest sq s)) =
           invocations s @ [OnError (promise cb) (cancelledRequest sq)]
         \<and> sq \<notin> pendingResponses (snd (tryCancelRequest sq s))
         \<and> pendingResponses (snd (tryCancelRequest sq s)) = pendingResponses s - {sq}"
  using assms by (simp add: tryCancelRequest_invocations tryCancelRequest_pending registered_def)

theorem cancel_fails_registered_outcome_witness:
  "fst (fetch 0 (callbacks one_in_flight)) = Some \<lparr>promise = 0, startTime = 7, cb_isAsync = False\<rparr> \<and>
   pendingResponses one_in_flight = {0} \<and>
   invocations (snd (tryCancelRequest 0 one_in_flight)) = [OnError 0 (cancelledRequest 0)] \<and>
   pendingResponses (snd (tryCancelRequest 0 one_in_flight)) = {}"
  using cancel_fails_registered_outcome[OF one_in_flight_callback]
  by (simp add: one_in_flight_callback one_in_flight_pending) (simp add: one_in_flight_def engine_simps)

text \<open>
  C7, as stated, fails. In \<open>failed_then_cancelled\<close> the write of a request threw, so its
  outcome was resolved to failure with what was thrown, not with a cancellation; then the
  request's cancellation token fired, before the rejection handler had run. The handler
  reads \<open>wasCancelled\<close> when it runs, finds it set, and forwards no diagnostic.
\<close>

theorem write_failure_then_cancel_counterexample:
  "invocations failed_then_cancelled = [OnError 0 (Thrown ''write EPIPE'')] \<and>
   microtasks failed_then_cancelled = [(0, Thrown ''write EPIPE'')] \<and>
   telemetry (runMicrotasks failed_then_cancelled) = []"
  by (simp add: failed_then_cancelled_facts runMicrotasks_def catchHandler_def)

text \<open>
  C7, amended. In every reachable state: the rejection handler of a failure caused by
  cancellation forwards nothing; a handler that runs while \<open>wasCancelled\<close> of its command is
  unset forwards one record, made by \<open>parseErrorText\<close> from the error's message and the
  command's name; running the microtasks forwards exactly what each scheduled handler
  reports. \<open>wasCancelled\<close> of a command is set by the firing of that command's cancellation
  token and by nothing else. And a failure of a registered outcome schedules its handler
  with the failure's cause: in \<open>tryCancelRequest\<close>, in \<open>sendRequest\<close> when the write throws,
  in \<open>dispatchResponse\<close> for an unsuccessful response and in \<open>CallbackMap.destroy\<close>.
\<close>

theorem failure_diagnostics:
  "(\<forall>p e. (p, e) \<in> set (microtasks (run ops (new_server pipeName))) \<and> (\<exists>n. e = cancelledRequest n) \<longrightarrow>
      telemetry (catchHandler (p, e) (run ops (new_server pipeName))) =
        telemetry (run ops (new_server pipeName))) \<and>
   (\<forall>p e c. closures (run ops (new_server pipeName)) p = Some c \<and> \<not> wasCancelled c \<longrightarrow>
      telemetry (catchHandler (p, e) (run ops (new_server pipeName))) =
        telemetry (run ops (new_server pipeName)) @
          [(''languageServiceErrorResponse'', parseErrorText (err_message e) (cl_command c))]) \<and>
   telemetry (runMicrotasks (run ops (new_server pipeName))) =
     telemetry (run ops (new_server pipeName)) @
       concat (map (report (run ops (new_server pipeName))) (microtasks (run ops (new_server pipeName)))) \<and>
   (\<forall>p c op. closures (run ops (new_server pipeName)) p = Some c \<and> \<not> wasCancelled c \<and> op \<noteq> Cancel p \<longrightarrow>
      (\<exists>c'. closures (step op (run ops (new_server pipeName))) p = Some c' \<and> \<not> wasCancelled c')) \<and>
   (\<forall>p. registered p (run ops (new_server pipeName)) \<longrightarrow>
      microtasks (snd (tryCancelRequest p (run ops (new_server pipeName)))) =
        microtasks (run ops (new_server pipeName)) @ [(p, cancelledRequest p)] \<and>
      (\<forall>fails item m. fails (request item) = Some m \<and> seq (request item) = p \<longrightarrow>
         microtasks (sendRequest fails item (run ops (new_server pipeName))) =
           microtasks (run ops (new_server pipeName)) @ [(p, Thrown m)]) \<and>
      (\<forall>r. request_seq r = p \<and> \<not> success r \<longrightarrow>
         microtasks (dispatchResponse r (run ops (new_server pipeName))) =
           microtasks (run ops (new_server pipeName)) @ [(p, ErrorResponse r)]) \<and>
      (\<forall>cause. (p, cause) \<in> set (microtasks (destroy cause (run ops (new_server pipeName))))))"
proof -
  let ?s = "run ops (new_server pipeName)"
  have snd: "sound ?s" by (rule reachable_sound)
  then have i: "invariant ?s" and ic: "inv_callbacks ?s" and ij: "inv_jobs ?s"
    by (simp_all add: sound_def invariant_def)
  have 1: "telemetry (catchHandler (p, e) ?s) = telemetry ?s"
    if "(p, e) \<in> set (microtasks ?s)" and "\<exists>n. e = cancelledRequest n" for p e
  proof -
    from ij that obtain c where "closures ?s p = Some c" "wasCancelled c"
      unfolding inv_jobs_def by blast
    then show ?thesis by (simp add: catchHandler_def)
  qed
  have 2: "telemetry (catchHandler (p, e) ?s) = telemetry ?s @
      [(''languageServiceErrorResponse'', parseErrorText (err_message e) (cl_command c))]"
    if "closures ?s p = Some c" and "\<not> wasCancelled c" for p e c
    using that by (simp add: catchHandler_def)
  have 3: "telemetry (runMicrotasks ?s) = telemetry ?s @ concat (map (report ?s) (microtasks ?s))"
    by (rule runMicrotasks_telemetry)
  have 4: "\<exists>c'. closures (step op ?s) p = Some c' \<and> \<not> wasCancelled c'"
    if "closures ?s p = Some c" and "\<not> wasCancelled c" and "op \<noteq> Cancel p" for p c op
    using flag_step[OF i that] .
  have 5: "microtasks (snd (tryCancelRequest p ?s)) = microtasks ?s @ [(p, cancelledRequest p)]"
    if r: "registered p ?s" for p
  proof -
    have "inv_callbacks (unqueued p ?s)"
      using unqueued_invariant[OF i, of p] by (simp add: invariant_def)
    moreover have "registered p (unqueued p ?s)"
      using r by (simp add: unqueued_def registered_def split: option.splits)
    moreover have "settled (unqueued p ?s) = settled ?s" "microtasks (unqueued p ?s) = microtasks ?s"
      by (simp_all add: unqueued_def split: option.splits)
    ultimately show ?thesis
      using sound_unsettled[OF snd r]
      by (simp add: tryCancelRequest_unqueued microtasks_failCallback_registered)
  qed
  have 6: "microtasks (sendRequest fails item ?s) = microtasks ?s @ [(p, Thrown m)]"
    if r: "registered p ?s" and f: "fails (request item) = Some m" and q: "seq (request item) = p"
    for p fails item m
  proof -
    let ?t = "if expectsResponse item \<and> \<not> isAsync item
              then ?s\<lparr>pendingResponses := insert (seq (request item)) (pendingResponses ?s)\<rparr> else ?s"
    have "inv_callbacks ?t"
      by (rule inv_callbacks_same[OF ic]) simp_all
    moreover have "registered p ?t" using r by (simp add: registered_def)
    moreover have "settled ?t = settled ?s" "microtasks ?t = microtasks ?s" by simp_all
    ultimately have "microtasks (failCallback p (Thrown m) ?t) = microtasks ?s @ [(p, Thrown m)]"
      using sound_unsettled[OF snd r] microtasks_failCallback_registered[of ?t p "Thrown m"]
      by simp
    then show ?thesis by (simp add: sendRequest_alt Let_def f q)
  qed
  have 7: "microtasks (dispatchResponse r ?s) = microtasks ?s @ [(request_seq r, ErrorResponse r)]"
    if r: "registered (request_seq r) ?s" and f: "\<not> success r" for r
  proof -
    from r obtain cb where c: "fst (fetch (request_seq r) (callbacks ?s)) = Some cb"
      by (auto simp: registered_def)
    from fetch_Some_promise(1)[OF ic c] sound_unsettled[OF snd r] f show ?thesis
      by (simp add: dispatchResponse_alt c microtasks_onError_fresh)
  qed
  have 8: "(p, cause) \<in> set (microtasks (destroy cause ?s))" if r: "registered p ?s" for p cause
    by (rule destroy_schedules[OF ic r sound_unsettled[OF snd r]])
  from 1 2 3 4 5 6 7 8 show ?thesis by blast
qed

theorem failure_diagnostics_witness:
  "closures write_failed 0 = Some \<lparr>cl_command = ''quickinfo'', cl_info = sync_info, wasCancelled = False\<rparr> \<and>
   microtasks write_failed = [(0, Thrown ''write EPIPE'')] \<and>
   telemetry (catchHandler (0, Thrown ''write EPIPE'') write_failed) =
     [(''languageServiceErrorResponse'', parseErrorText (Some ''write EPIPE'') ''quickinfo'')] \<and>
   microtasks cancelled_in_flight = [(0, cancelledRequest 0)] \<and>
   telemetry (catchHandler (0, cancelledRequest 0) cancelled_in_flight) = []"
proof -
  note W = failure_diagnostics[of "[Execute throwing 1 ''quickinfo'' ''a'' sync_info]" None,
      folded write_failed_def]
  note C = failure_diagnostics[of
      "[Execute no_failure 1 ''quickinfo'' ''a'' sync_info, Cancel 0]" None,
      folded cancelled_in_flight_def]
  have "telemetry (catchHandler (0, Thrown ''write EPIPE'') write_failed) =
      telemetry write_failed @
        [(''languageServiceErrorResponse'', parseErrorText (err_message (Thrown ''write EPIPE''))
           (cl_command \<lparr>cl_command = ''quickinfo'', cl_info = sync_info, wasCancelled = False\<rparr>))]"
    using W[THEN conjunct2, THEN conjunct1, rule_format, of 0
        "\<lparr>cl_command = ''quickinfo'', cl_info = sync_info, wasCancelled = False\<rparr>" "Thrown ''write EPIPE''"]
      write_failed_facts(3)
    by simp
  moreover have "telemetry (catchHandler (0, cancelledRequest 0) cancelled_in_flight) =
      telemetry cancelled_in_flight"
    using C[THEN conjunct1, rule_format, of 0 "cancelledRequest 0"] cancelled_in_flight_facts(2)
    by auto
  ultimately show ?thesis
    using write_failed_facts cancelled_in_flight_facts by simp
qed

text \<open>
  C8. Parsing the failure error text \<open>Error processing request. Bad arg\<close>, a newline, \<open>at foo()\<close>
  gives a properties map in which \<open>message\<close> is \<open>Bad arg\<close>, \<open>stack\<close> is \<open>at foo()\<close> and
  \<open>errorText\<close> is the whole raw text (and \<open>command\<close> is the command).
\<close>

theorem parseErrorText_scenario:
  "parseErrorText (Some (''Error processing request. Bad arg'' @ [newline] @ ''at foo()'')) cmd ''message''
     = Some ''Bad arg'' \<and>
   parseErrorText (Some (''Error processing request. Bad arg'' @ [newline] @ ''at foo()'')) cmd ''stack''
     = Some ''at foo()'' \<and>
   parseErrorText (Some (''Error processing request. Bad arg'' @ [newline] @ ''at foo()'')) cmd ''errorText''
     = Some (''Error processing request. Bad arg'' @ [newline] @ ''at foo()'') \<and>
   parseErrorText (Some (''Error processing request. Bad arg'' @ [newline] @ ''at foo()'')) cmd ''command''
     = Some cmd"
  by (simp add: parseErrorText_def startsWith_def substr_def substring_def substring_from_def
      newline_def Let_def)

text \<open>
  C9. The cancellation procedure never runs the send loop. Cancelling the synchronous
  command in flight empties the in-flight set and writes nothing to the worker: the items
  in the queue stay where they are. No operation other than a submission or a dispatched
  message writes to the worker afterwards; the next dispatched message, and the next
  submission, run the loop, which writes the head of the queue first (when that write
  does not throw).
\<close>

theorem cancel_does_not_drain:
  assumes "pendingResponses s = {sq}" and "registered sq s" and "sq \<notin> set (queued s)"
    and "queue (requestQueue s) = item # rest" and "fails (request item) = None"
  shows "stdin (snd (tryCancelRequest sq s)) = stdin s
       \<and> pendingResponses (snd (tryCancelRequest sq s)) = {}
       \<and> queue (requestQueue (snd (tryCancelRequest sq s))) = item # rest
       \<and> (\<forall>op. \<not> drains op \<longrightarrow>
             stdin (step op (snd (tryCancelRequest sq s))) = stdin s)
       \<and> (\<exists>more. stdin (snd (dispatchMessage fails msg (snd (tryCancelRequest sq s))))
                    = stdin s @ request item # more)
       \<and> (\<exists>more. stdin (snd (executeImpl fails now cmd args info (snd (tryCancelRequest sq s))))
                    = stdin s @ request item # more)"
proof -
  let ?t = "snd (tryCancelRequest sq s)"
  have p: "pendingResponses ?t = {}"
    using assms(1,2) by (simp add: tryCancelRequest_pending)
  have "sq \<notin> (\<lambda>item. seq (request item)) ` set (queue (requestQueue s))"
    using assms(3) by (simp add: queued_def)
  then have q: "queue (requestQueue ?t) = item # rest"
    using assms(4) by (simp add: splice_first_absent)
  have i: "stdin ?t = stdin s" by simp
  have "\<forall>op. \<not> drains op \<longrightarrow> stdin (step op ?t) = stdin s"
    by (simp add: step_stdin_unchanged)
  moreover have "\<exists>more. stdin (snd (dispatchMessage fails msg ?t)) = stdin s @ request item # more"
    using dispatch_sends_head[of ?t item rest fails msg] p q assms(5) by simp
  moreover have "\<exists>more. stdin (snd (executeImpl fails now cmd args info ?t)) = stdin s @ request item # more"
    using execute_sends_head[of ?t item rest fails now cmd args info] p q assms(5) by simp
  ultimately show ?thesis using p q i by blast
qed

theorem cancel_does_not_drain_witness:
  "pendingResponses two_waiting = {0} \<and> registered 0 two_waiting \<and> 0 \<notin> set (queued two_waiting) \<and>
   queue (requestQueue two_waiting) = [second_item, third_item] \<and>
   stdin (snd (tryCancelRequest 0 two_waiting)) = stdin two_waiting \<and>
   pendingResponses (snd (tryCancelRequest 0 two_waiting)) = {} \<and>
   queue (requestQueue (snd (tryCancelRequest 0 two_waiting))) = [second_item, third_item] \<and>
   stdin (step Microtasks (snd (tryCancelRequest 0 two_waiting))) = stdin two_waiting \<and>
   (\<exists>more. stdin (snd (dispatchMessage no_failure (UnknownMsg ''ping'') (snd (tryCancelRequest 0 two_waiting))))
      = stdin two_waiting @ request second_item # more)"
  using cancel_does_not_drain[where s = two_waiting and sq = 0 and item = second_item
      and rest = "[third_item]" and fails = no_failure and msg = "UnknownMsg ''ping''",
      OF two_waiting_facts(1-5)]
    two_waiting_facts
  by simp

text \<open>
  C10. The handlers of the worker's \<open>exit\<close> and \<open>error\<close> events fail every registered callback
  with their own cause and clear the two callback maps; the queue with its sequence counter,
  the in-flight synchronous set and the worker's input are as before. Of the teardown
  paths only \<open>dispose\<close> clears the in-flight synchronous set (and it leaves the queue alone
  too).
\<close>

theorem worker_exit_error_frame:
  "requestQueue (handleExit code s) = requestQueue s \<and>
   pendingResponses (handleExit code s) = pendingResponses s \<and>
   stdin (handleExit code s) = stdin s \<and>
   callbacks (handleExit code s) = \<lparr>m_callbacks = [], m_asyncCallbacks = []\<rparr> \<and>
   invocations (handleExit code s) = invocations s @
     map (\<lambda>cb. OnError (promise cb) (Error ''server exited''))
       (map snd (m_callbacks (callbacks s)) @ map snd (m_asyncCallbacks (callbacks s))) \<and>
   requestQueue (handleError e s) = requestQueue s \<and>
   pendingResponses (handleError e s) = pendingResponses s \<and>
   stdin (handleError e s) = stdin s \<and>
   callbacks (handleError e s) = \<lparr>m_callbacks = [], m_asyncCallbacks = []\<rparr> \<and>
   invocations (handleError e s) = invocations s @
     map (\<lambda>cb. OnError (promise cb) (Error ''server errored''))
       (map snd (m_callbacks (callbacks s)) @ map snd (m_asyncCallbacks (callbacks s))) \<and>
   requestQueue (dispose s) = requestQueue s \<and>
   pendingResponses (dispose s) = {}"
  by (simp add: handleExit_def handleError_def dispose_def)


end
